theory Spec2Isabelle
  imports Main "HOL-Library.Multiset" "HOL-Library.List_Lexorder" "HOL-Library.Char_ord"
begin

section \<open>Python lists and loops\<close>

text \<open>
  The two programs of the repository (\<^verbatim>\<open>tp1/sorting.py\<close> and
  \<^verbatim>\<open>tp1/datastructures.py\<close>) work on Python lists of strings. A list is a HOL
  list; an exception is a value of type \<open>error\<close>, and every operation that can raise
  returns \<open>error + 'a\<close> with \<open>Inl\<close> for the exception.
\<close>

datatype error = IndexError | KeyError

definition ebind :: "error + 'a \<Rightarrow> ('a \<Rightarrow> error + 'b) \<Rightarrow> error + 'b" where
  "ebind m f = (case m of Inl e \<Rightarrow> Inl e | Inr x \<Rightarrow> f x)"

text \<open>
  \<^verbatim>\<open>xs[i]\<close> and \<^verbatim>\<open>xs[i] = v\<close> for a Python integer \<open>i\<close>: a negative index
  counts from the end, and an index outside \<open>-len(xs) .. len(xs) - 1\<close> raises
  \<^verbatim>\<open>IndexError\<close>.
\<close>

definition getitem :: "'a list \<Rightarrow> int \<Rightarrow> error + 'a" where
  "getitem xs i =
     (let n = int (length xs); k = (if i < 0 then i + n else i)
      in if 0 \<le> k \<and> k < n then Inr (xs ! nat k) else Inl IndexError)"

definition setitem :: "'a list \<Rightarrow> int \<Rightarrow> 'a \<Rightarrow> error + 'a list" where
  "setitem xs i v =
     (let n = int (length xs); k = (if i < 0 then i + n else i)
      in if 0 \<le> k \<and> k < n then Inr (xs[nat k := v]) else Inl IndexError)"

text \<open>
  \<^verbatim>\<open>for x in items: body\<close>, where the body updates a state and may raise: the loop
  stops at the first exception. \<^verbatim>\<open>range(a, b)\<close> with fixed bounds is the list
  \<open>[a..<b]\<close>, empty when \<open>b \<le> a\<close>.
\<close>

fun for_loop :: "'i list \<Rightarrow> ('i \<Rightarrow> 's \<Rightarrow> error + 's) \<Rightarrow> 's \<Rightarrow> error + 's" where
  "for_loop [] body s = Inr s"
| "for_loop (x # xs) body s =
     (case body x s of Inl e \<Rightarrow> Inl e | Inr s' \<Rightarrow> for_loop xs body s')"

text \<open>
  The tuple assignment \<^verbatim>\<open>arr[i], arr[j] = arr[j], arr[i]\<close>: the right-hand side is
  read first (\<^verbatim>\<open>arr[j]\<close>, then \<^verbatim>\<open>arr[i]\<close>), then the two stores happen from
  left to right.
\<close>

definition swap_items :: "'a list \<Rightarrow> int \<Rightarrow> int \<Rightarrow> error + 'a list" where
  "swap_items arr i j =
     ebind (getitem arr j) (\<lambda>x.
     ebind (getitem arr i) (\<lambda>y.
     ebind (setitem arr i x) (\<lambda>arr'.
       setitem arr' j y)))"

section \<open>The sorting algorithms of \<^verbatim>\<open>sorting.py\<close>\<close>

subsection \<open>Bubble sort\<close>

text \<open>
  \<^verbatim>\<open>
  def bubble_sort(data):
      arr = data[:]
      n = len(arr)
      for i in range(n):
          for j in range(0, n - i - 1):
              if arr[j] > arr[j + 1]:
                  arr[j], arr[j + 1] = arr[j + 1], arr[j]
      return arr
  \<close>
  \<open>bubble_step\<close> is the body of the inner loop, \<open>bubble_pass\<close> the body of the outer
  loop. The elements are compared with Python's \<^verbatim>\<open>>\<close>, a linear order on strings.
\<close>

definition bubble_step :: "nat \<Rightarrow> 'a::linorder list \<Rightarrow> error + 'a list" where
  "bubble_step j arr =
     ebind (getitem arr (int j)) (\<lambda>x.
     ebind (getitem arr (int j + 1)) (\<lambda>y.
       if x > y then swap_items arr (int j) (int j + 1) else Inr arr))"

definition bubble_pass :: "nat \<Rightarrow> nat \<Rightarrow> 'a::linorder list \<Rightarrow> error + 'a list" where
  "bubble_pass n i arr = for_loop [0..<n - i - 1] bubble_step arr"

definition bubble_sort :: "'a::linorder list \<Rightarrow> error + 'a list" where
  "bubble_sort data =
     (let arr = data; n = length arr
      in for_loop [0..<n] (bubble_pass n) arr)"

subsection \<open>Selection sort\<close>

text \<open>
  \<^verbatim>\<open>
  def selection_sort(data):
      arr = data[:]
      n = len(arr)
      for i in range(n):
          min_idx = i
          for j in range(i+1, n):
              if arr[j] < arr[min_idx]:
                  min_idx = j
          arr[i], arr[min_idx] = arr[min_idx], arr[i]
      return arr
  \<close>
  The inner loop only reads the array; its state is \<open>min_idx\<close>.
\<close>

definition min_step :: "'a::linorder list \<Rightarrow> nat \<Rightarrow> nat \<Rightarrow> error + nat" where
  "min_step arr j min_idx =
     ebind (getitem arr (int j)) (\<lambda>x.
     ebind (getitem arr (int min_idx)) (\<lambda>y.
       Inr (if x < y then j else min_idx)))"

definition selection_pass :: "nat \<Rightarrow> nat \<Rightarrow> 'a::linorder list \<Rightarrow> error + 'a list" where
  "selection_pass n i arr =
     ebind (for_loop [i + 1..<n] (min_step arr) i) (\<lambda>min_idx.
       swap_items arr (int i) (int min_idx))"

definition selection_sort :: "'a::linorder list \<Rightarrow> error + 'a list" where
  "selection_sort data =
     (let arr = data; n = length arr
      in for_loop [0..<n] (selection_pass n) arr)"

subsection \<open>Insertion sort\<close>

text \<open>
  \<^verbatim>\<open>
  def insertion_sort(data):
      arr = data[:]
      for i in range(1, len(arr)):
          key = arr[i]
          j = i - 1
          while j >= 0 and arr[j] > key:
              arr[j + 1] = arr[j]
              j -= 1
          arr[j + 1] = key
      return arr
  \<close>
  \<open>shift_loop\<close> is the \<^verbatim>\<open>while\<close> loop; it returns the final \<open>j\<close> and array. The
  index \<open>j\<close> is a Python integer and reaches \<open>-1\<close>; the test \<^verbatim>\<open>j >= 0\<close> comes first
  and guards the read \<^verbatim>\<open>arr[j]\<close>.

  Python compares the elements themselves. To speak about records that are equal as
  strings and still distinguishable (the subject of stability), the comparison is taken
  on a key \<open>f\<close> of each element: \<^verbatim>\<open>arr[j] > key\<close> is \<open>f (arr[j]) > f key\<close>, and
  \<open>insertion_sort\<close> itself is the instance where the key is the element.
\<close>

function shift_loop ::
  "('a \<Rightarrow> 'k::linorder) \<Rightarrow> 'a \<Rightarrow> int \<Rightarrow> 'a list \<Rightarrow> error + (int \<times> 'a list)" where
  "shift_loop f key j arr =
     (if j \<ge> 0 then
        (case getitem arr j of
           Inl e \<Rightarrow> Inl e
         | Inr x \<Rightarrow>
             if f x > f key then
               (case ebind (getitem arr j) (setitem arr (j + 1)) of
                  Inl e \<Rightarrow> Inl e
                | Inr arr' \<Rightarrow> shift_loop f key (j - 1) arr')
             else Inr (j, arr))
      else Inr (j, arr))"
  by pat_completeness auto
termination
  by (relation "measure (\<lambda>(f, key, j, arr). nat (j + 1))") auto

declare shift_loop.simps [simp del]

definition insertion_pass :: "('a \<Rightarrow> 'k::linorder) \<Rightarrow> nat \<Rightarrow> 'a list \<Rightarrow> error + 'a list" where
  "insertion_pass f i arr =
     ebind (getitem arr (int i)) (\<lambda>key.
     ebind (shift_loop f key (int i - 1) arr) (\<lambda>(j, arr').
       setitem arr' (j + 1) key))"

definition insertion_sort_key :: "('a \<Rightarrow> 'k::linorder) \<Rightarrow> 'a list \<Rightarrow> error + 'a list" where
  "insertion_sort_key f data =
     (let arr = data
      in for_loop [1..<length arr] (insertion_pass f) arr)"

definition insertion_sort :: "'a::linorder list \<Rightarrow> error + 'a list" where
  "insertion_sort data = insertion_sort_key (\<lambda>x. x) data"

subsection \<open>Bubble sort with a log of its passes and comparisons\<close>

text \<open>
  The loop structure of \<open>bubble_sort\<close> is not visible in the list it returns. The same
  code is therefore run with a log: an entry \<open>Pass i\<close> when the outer loop starts its
  iteration \<open>i\<close>, and an entry \<open>Step j k x y swapped\<close> for each iteration of the inner
  loop, with the two positions it reads, the two values it finds there, and whether it
  took the branch of the swap.
\<close>

datatype 'a event = Pass nat | Step nat nat 'a 'a bool

definition bubble_step_traced ::
  "nat \<Rightarrow> 'a::linorder list \<times> 'a event list \<Rightarrow> error + 'a list \<times> 'a event list" where
  "bubble_step_traced j = (\<lambda>(arr, log).
     ebind (getitem arr (int j)) (\<lambda>x.
     ebind (getitem arr (int j + 1)) (\<lambda>y.
       if x > y
       then ebind (swap_items arr (int j) (int j + 1)) (\<lambda>arr'.
              Inr (arr', log @ [Step j (j + 1) x y True]))
       else Inr (arr, log @ [Step j (j + 1) x y False]))))"

definition bubble_pass_traced ::
  "nat \<Rightarrow> nat \<Rightarrow> 'a::linorder list \<times> 'a event list \<Rightarrow> error + 'a list \<times> 'a event list" where
  "bubble_pass_traced n i = (\<lambda>(arr, log).
     for_loop [0..<n - i - 1] bubble_step_traced (arr, log @ [Pass i]))"

definition bubble_sort_traced :: "'a::linorder list \<Rightarrow> error + 'a list \<times> 'a event list" where
  "bubble_sort_traced data =
     (let arr = data; n = length arr
      in for_loop [0..<n] (bubble_pass_traced n) (arr, []))"

text \<open>
  The classic loop structure, in the words of the specification: \<open>n\<close> passes, and on pass
  \<open>i\<close> a comparison of the adjacent positions \<open>j\<close> and \<open>j + 1\<close> for \<open>j\<close> from 0 to
  \<open>n - i - 2\<close>. \<open>outline\<close> forgets the values of a log entry.
\<close>

definition schedule :: "nat \<Rightarrow> (nat + nat \<times> nat) list" where
  "schedule n = concat (map (\<lambda>i. Inl i # map (\<lambda>j. Inr (j, j + 1)) [0..<n - i - 1]) [0..<n])"

fun outline :: "'a event \<Rightarrow> nat + nat \<times> nat" where
  "outline (Pass i) = Inl i"
| "outline (Step j k x y swapped) = Inr (j, k)"

text \<open>
  \<open>replay\<close> reads a log as the specification describes a step: it compares the values at
  two adjacent positions of the current list and swaps them when, and only when, the left
  one is strictly greater. It returns the final list, or \<open>None\<close> when an entry of the log
  is not such a step.
\<close>

fun replay :: "'a::linorder event list \<Rightarrow> 'a list \<Rightarrow> 'a list option" where
  "replay [] arr = Some arr"
| "replay (Pass i # es) arr = replay es arr"
| "replay (Step j k x y swapped # es) arr =
     (if k = j + 1 \<and> k < length arr \<and> x = arr ! j \<and> y = arr ! k \<and> swapped = (y < x)
      then replay es (if swapped then arr[j := y, k := x] else arr)
      else None)"

section \<open>The sorting algorithms on a store of list objects\<close>

text \<open>
  A Python variable holds a reference to a list object, and \<^verbatim>\<open>arr[i] = v\<close> changes the
  object in place, for every holder of a reference to it. To speak about what a sort does
  to the list it is given, the lists live in a store: a heap is the sequence of the list
  objects allocated so far, a reference is an index into it. \<^verbatim>\<open>data[:]\<close> allocates a
  new object with the elements of \<open>data\<close>; reading and writing \<^verbatim>\<open>arr[i]\<close> go through
  the reference \<open>arr\<close>. The three functions below are the source once more, statement by
  statement, with every access to \<^verbatim>\<open>arr\<close> made through the heap; they return the
  reference they hold at \<^verbatim>\<open>return arr\<close> and the final heap.
\<close>

type_synonym 'a heap = "'a list list"

type_synonym ref = nat

definition list_copy :: "'a heap \<Rightarrow> ref \<Rightarrow> ref \<times> 'a heap" where
  "list_copy h r = (length h, h @ [h ! r])"

definition heap_len :: "'a heap \<Rightarrow> ref \<Rightarrow> nat" where
  "heap_len h r = length (h ! r)"

definition heap_getitem :: "'a heap \<Rightarrow> ref \<Rightarrow> int \<Rightarrow> error + 'a" where
  "heap_getitem h r i = getitem (h ! r) i"

definition heap_setitem :: "'a heap \<Rightarrow> ref \<Rightarrow> int \<Rightarrow> 'a \<Rightarrow> error + 'a heap" where
  "heap_setitem h r i v = ebind (setitem (h ! r) i v) (\<lambda>xs. Inr (h[r := xs]))"

text \<open>
  \<open>store_at h r res\<close> puts the list that a computation on a list returned into the
  object \<open>r\<close> of the heap \<open>h\<close>, and passes an exception on: the link between a run on
  a list and the same run on the heap.
\<close>

definition store_at :: "'a heap \<Rightarrow> ref \<Rightarrow> error + 'a list \<Rightarrow> error + 'a heap" where
  "store_at h r res = (case res of Inl e \<Rightarrow> Inl e | Inr xs \<Rightarrow> Inr (h[r := xs]))"

definition heap_swap_items :: "'a heap \<Rightarrow> ref \<Rightarrow> int \<Rightarrow> int \<Rightarrow> error + 'a heap" where
  "heap_swap_items h arr i j =
     ebind (heap_getitem h arr j) (\<lambda>x.
     ebind (heap_getitem h arr i) (\<lambda>y.
     ebind (heap_setitem h arr i x) (\<lambda>h'.
       heap_setitem h' arr j y)))"

definition bubble_step_heap :: "ref \<Rightarrow> nat \<Rightarrow> 'a::linorder heap \<Rightarrow> error + 'a heap" where
  "bubble_step_heap arr j h =
     ebind (heap_getitem h arr (int j)) (\<lambda>x.
     ebind (heap_getitem h arr (int j + 1)) (\<lambda>y.
       if x > y then heap_swap_items h arr (int j) (int j + 1) else Inr h))"

definition bubble_pass_heap :: "ref \<Rightarrow> nat \<Rightarrow> nat \<Rightarrow> 'a::linorder heap \<Rightarrow> error + 'a heap" where
  "bubble_pass_heap arr n i h = for_loop [0..<n - i - 1] (bubble_step_heap arr) h"

definition bubble_sort_heap :: "'a::linorder heap \<Rightarrow> ref \<Rightarrow> error + ref \<times> 'a heap" where
  "bubble_sort_heap h data =
     (let (arr, h1) = list_copy h data; n = heap_len h1 arr
      in ebind (for_loop [0..<n] (bubble_pass_heap arr n) h1) (\<lambda>h'. Inr (arr, h')))"

definition min_step_heap :: "'a::linorder heap \<Rightarrow> ref \<Rightarrow> nat \<Rightarrow> nat \<Rightarrow> error + nat" where
  "min_step_heap h arr j min_idx =
     ebind (heap_getitem h arr (int j)) (\<lambda>x.
     ebind (heap_getitem h arr (int min_idx)) (\<lambda>y.
       Inr (if x < y then j else min_idx)))"

definition selection_pass_heap :: "ref \<Rightarrow> nat \<Rightarrow> nat \<Rightarrow> 'a::linorder heap \<Rightarrow> error + 'a heap" where
  "selection_pass_heap arr n i h =
     ebind (for_loop [i + 1..<n] (min_step_heap h arr) i) (\<lambda>min_idx.
       heap_swap_items h arr (int i) (int min_idx))"

definition selection_sort_heap :: "'a::linorder heap \<Rightarrow> ref \<Rightarrow> error + ref \<times> 'a heap" where
  "selection_sort_heap h data =
     (let (arr, h1) = list_copy h data; n = heap_len h1 arr
      in ebind (for_loop [0..<n] (selection_pass_heap arr n) h1) (\<lambda>h'. Inr (arr, h')))"

function shift_loop_heap ::
  "ref \<Rightarrow> 'a::linorder \<Rightarrow> int \<Rightarrow> 'a heap \<Rightarrow> error + (int \<times> 'a heap)" where
  "shift_loop_heap arr key j h =
     (if j \<ge> 0 then
        (case heap_getitem h arr j of
           Inl e \<Rightarrow> Inl e
         | Inr x \<Rightarrow>
             if x > key then
               (case ebind (heap_getitem h arr j) (heap_setitem h arr (j + 1)) of
                  Inl e \<Rightarrow> Inl e
                | Inr h' \<Rightarrow> shift_loop_heap arr key (j - 1) h')
             else Inr (j, h))
      else Inr (j, h))"
  by pat_completeness auto
termination
  by (relation "measure (\<lambda>(arr, key, j, h). nat (j + 1))") auto

declare shift_loop_heap.simps [simp del]

definition insertion_pass_heap :: "ref \<Rightarrow> nat \<Rightarrow> 'a::linorder heap \<Rightarrow> error + 'a heap" where
  "insertion_pass_heap arr i h =
     ebind (heap_getitem h arr (int i)) (\<lambda>key.
     ebind (shift_loop_heap arr key (int i - 1) h) (\<lambda>(j, h').
       heap_setitem h' arr (j + 1) key))"

definition insertion_sort_heap :: "'a::linorder heap \<Rightarrow> ref \<Rightarrow> error + ref \<times> 'a heap" where
  "insertion_sort_heap h data =
     (let (arr, h1) = list_copy h data
      in ebind (for_loop [1..<heap_len h1 arr] (insertion_pass_heap arr) h1) (\<lambda>h'. Inr (arr, h')))"

section \<open>The container benchmark of \<^verbatim>\<open>datastructures.py\<close>\<close>

text \<open>
  \<open>main\<close> of \<^verbatim>\<open>datastructures.py\<close> is one straight-line function; it is modelled phase
  by phase, each phase a function of the containers it reads and updates. The timing and
  memory samples around each phase do not influence the containers and are left out.
\<close>

subsection \<open>The loader\<close>

text \<open>
  \<^verbatim>\<open>lines = [line.strip() for line in f.readlines() if line.strip()]\<close>
  (the same statement opens \<open>main\<close> of \<^verbatim>\<open>sorting.py\<close>). The input of the model is the
  list of raw lines that \<^verbatim>\<open>readlines\<close> returns. \<^verbatim>\<open>str.strip()\<close> removes the leading
  and the trailing whitespace characters; which characters are whitespace is a table of
  the Python runtime, the parameter \<open>isspace\<close> here. A string is true when it is not
  empty.
\<close>

definition strip :: "('c \<Rightarrow> bool) \<Rightarrow> 'c list \<Rightarrow> 'c list" where
  "strip isspace s = rev (dropWhile isspace (rev (dropWhile isspace s)))"

definition load :: "('c \<Rightarrow> bool) \<Rightarrow> 'c list list \<Rightarrow> 'c list list" where
  "load isspace raw = [strip isspace line. line \<leftarrow> raw, strip isspace line \<noteq> []]"

text \<open>The whitespace characters of ASCII: codes 9 to 13 and 28 to 32.\<close>

definition ascii_space :: "char \<Rightarrow> bool" where
  "ascii_space c = ((of_char c :: nat) \<in> set ([9..<14] @ [28..<33]))"

subsection \<open>Python dictionaries\<close>

text \<open>
  A \<^verbatim>\<open>dict\<close> keeps its keys in insertion order: it is a list of key-value pairs with
  distinct keys. \<^verbatim>\<open>d[k] = v\<close> replaces the value of a key that is present, in place,
  and appends a new key at the end; \<^verbatim>\<open>del d[k]\<close> raises \<^verbatim>\<open>KeyError\<close> when the key
  is absent.
\<close>

fun dict_set :: "('k \<times> 'v) list \<Rightarrow> 'k \<Rightarrow> 'v \<Rightarrow> ('k \<times> 'v) list" where
  "dict_set [] k v = [(k, v)]"
| "dict_set ((k', v') # d) k v =
     (if k' = k then (k', v) # d else (k', v') # dict_set d k v)"

definition dict_keys :: "('k \<times> 'v) list \<Rightarrow> 'k list" where
  "dict_keys d = map fst d"

definition dict_contains :: "('k \<times> 'v) list \<Rightarrow> 'k \<Rightarrow> bool" where
  "dict_contains d k = (k \<in> set (dict_keys d))"

definition dict_del :: "('k \<times> 'v) list \<Rightarrow> 'k \<Rightarrow> error + ('k \<times> 'v) list" where
  "dict_del d k =
     (if dict_contains d k then Inr (filter (\<lambda>(k', v). k' \<noteq> k) d) else Inl KeyError)"

subsection \<open>Construction\<close>

text \<open>
  \<^verbatim>\<open>
  hashtable = {}
  for i, line in enumerate(lines):
      hashtable[line] = i
  stack = []
  for line in lines:
      stack.append(line)
  queue = deque()
  for line in lines:
      queue.append(line)
  \<close>
  None of these statements can raise; the loops are folds.
\<close>

definition build_hashtable :: "'a list \<Rightarrow> ('a \<times> int) list" where
  "build_hashtable lines =
     fold (\<lambda>(i, line) hashtable. dict_set hashtable line (int i)) (enumerate 0 lines) []"

definition build_stack :: "'a list \<Rightarrow> 'a list" where
  "build_stack lines = fold (\<lambda>line stack. stack @ [line]) lines []"

definition build_queue :: "'a list \<Rightarrow> 'a list" where
  "build_queue lines = fold (\<lambda>line queue. queue @ [line]) lines []"

subsection \<open>Positional retrieval\<close>

text \<open>
  \<^verbatim>\<open>
  positions = [1, 100, 1000, 5000, len(lines)]
  for pos in positions:
      if pos <= len(stack):
          print(f"Stack position {pos}: {stack[pos-1]}")
      else:
          print(f"Stack position {pos} out of range!")
  \<close>
  and the same loop over \<^verbatim>\<open>queue_list = list(queue)\<close> and over
  \<^verbatim>\<open>hashtable_keys = list(hashtable.keys())\<close>. A printed line is a \<open>notice\<close>; the loop
  returns the lines it printed.
\<close>

datatype 'a notice = Element nat 'a | Out_Of_Range nat

definition positions :: "'a list \<Rightarrow> nat list" where
  "positions lines = [1, 100, 1000, 5000, length lines]"

definition probe :: "'a list \<Rightarrow> nat \<Rightarrow> error + 'a notice" where
  "probe container pos =
     (if pos \<le> length container
      then ebind (getitem container (int pos - 1)) (\<lambda>x. Inr (Element pos x))
      else Inr (Out_Of_Range pos))"

definition retrieve :: "'a list \<Rightarrow> nat list \<Rightarrow> error + 'a notice list" where
  "retrieve container ps =
     for_loop ps (\<lambda>pos out. ebind (probe container pos) (\<lambda>n. Inr (out @ [n]))) []"

subsection \<open>Bulk removal\<close>

text \<open>
  \<^verbatim>\<open>
  for _ in range(10):
      if stack:
          stack.pop()
  for _ in range(10):
      if queue:
          queue.popleft()
  to_remove = hashtable_keys[:10]
  for key in to_remove:
      if key in hashtable:
          del hashtable[key]
  \<close>
  \<^verbatim>\<open>pop\<close> and \<^verbatim>\<open>popleft\<close> raise \<^verbatim>\<open>IndexError\<close> on an empty container.
\<close>

definition list_pop :: "'a list \<Rightarrow> error + 'a list" where
  "list_pop stack = (if stack = [] then Inl IndexError else Inr (butlast stack))"

definition deque_popleft :: "'a list \<Rightarrow> error + 'a list" where
  "deque_popleft queue = (if queue = [] then Inl IndexError else Inr (tl queue))"

definition remove_from_stack :: "'a list \<Rightarrow> error + 'a list" where
  "remove_from_stack stack =
     for_loop [0..<10] (\<lambda>_ stack. if stack \<noteq> [] then list_pop stack else Inr stack) stack"

definition remove_from_queue :: "'a list \<Rightarrow> error + 'a list" where
  "remove_from_queue queue =
     for_loop [0..<10] (\<lambda>_ queue. if queue \<noteq> [] then deque_popleft queue else Inr queue) queue"

definition remove_from_hashtable :: "'k list \<Rightarrow> ('k \<times> 'v) list \<Rightarrow> error + ('k \<times> 'v) list" where
  "remove_from_hashtable hashtable_keys hashtable =
     (let to_remove = take 10 hashtable_keys
      in for_loop to_remove
           (\<lambda>key hashtable. if dict_contains hashtable key then dict_del hashtable key
                             else Inr hashtable)
           hashtable)"

subsection \<open>The order of first occurrence\<close>

text \<open>
  The order of first occurrence, in the words of the specification: the distinct
  records of a listing, each at the place where it is first seen.
\<close>

fun first_occurrences :: "'a list \<Rightarrow> 'a list" where
  "first_occurrences [] = []"
| "first_occurrences (x # xs) = x # first_occurrences (removeAll x xs)"

section \<open>Basic facts about the list operations and loops\<close>

lemma ebind_Inr [simp]: "ebind (Inr x) f = f x" by (simp add: ebind_def)
lemma ebind_Inl [simp]: "ebind (Inl e) f = Inl e" by (simp add: ebind_def)

lemma getitem_nat [simp]: "i < length xs \<Longrightarrow> getitem xs (int i) = Inr (xs ! i)"
  by (simp add: getitem_def)

lemma getitem_Suc [simp]: "Suc i < length xs \<Longrightarrow> getitem xs (int i + 1) = Inr (xs ! Suc i)"
  using getitem_nat [of "Suc i" xs] by (simp add: add.commute)

lemma setitem_nat [simp]: "i < length xs \<Longrightarrow> setitem xs (int i) v = Inr (xs[i := v])"
  by (simp add: setitem_def)

lemma setitem_Suc [simp]: "Suc i < length xs \<Longrightarrow> setitem xs (int i + 1) v = Inr (xs[Suc i := v])"
  using setitem_nat [of "Suc i" xs v] by (simp add: add.commute)

lemma swap_items_nat:
  "i < length arr \<Longrightarrow> j < length arr \<Longrightarrow>
   swap_items arr (int i) (int j) = Inr (arr[i := arr ! j, j := arr ! i])"
  by (simp add: swap_items_def)

lemma swap_items_Suc:
  "Suc j < length arr \<Longrightarrow>
   swap_items arr (int j) (int j + 1) = Inr (arr[j := arr ! Suc j, Suc j := arr ! j])"
  using swap_items_nat [of j arr "Suc j"] by (simp add: add.commute)

lemma for_loop_append:
  "for_loop (xs @ ys) body s =
     (case for_loop xs body s of Inl e \<Rightarrow> Inl e | Inr s' \<Rightarrow> for_loop ys body s')"
  by (induction xs arbitrary: s) (auto split: sum.splits)

lemma for_loop_upt_rule:
  assumes init: "I a s" and le: "a \<le> b"
    and step: "\<And>k t. a \<le> k \<Longrightarrow> k < b \<Longrightarrow> I k t \<Longrightarrow> \<exists>t'. body k t = Inr t' \<and> I (Suc k) t'"
  shows "\<exists>s'. for_loop [a..<b] body s = Inr s' \<and> I b s'"
  using le step
proof (induction b)
  case 0
  with init show ?case by simp
next
  case (Suc b)
  show ?case
  proof (cases "a \<le> b")
    case True
    have "\<exists>s'. for_loop [a..<b] body s = Inr s' \<and> I b s'"
      using Suc.IH [OF True] Suc.prems(2) by (meson less_Suc_eq)
    then obtain s1 where s1: "for_loop [a..<b] body s = Inr s1" "I b s1" by blast
    from Suc.prems(2) [OF True _ s1(2)] obtain s2 where "body b s1 = Inr s2" "I (Suc b) s2"
      by auto
    with s1 True show ?thesis by (simp add: for_loop_append)
  next
    case False
    with Suc.prems(1) have "a = Suc b" by simp
    with init show ?thesis by simp
  qed
qed

subsection \<open>Bubble sort returns the sorted permutation\<close>

lemma bubble_step_eq:
  "Suc j < length arr \<Longrightarrow>
   bubble_step j arr =
     Inr (if arr ! j > arr ! Suc j then arr[j := arr ! Suc j, Suc j := arr ! j] else arr)"
  by (simp add: bubble_step_def swap_items_Suc)

lemma bubble_pass_spec:
  fixes arr :: "'a::linorder list"
  assumes len: "length arr = n" and i: "i < n"
  shows "\<exists>arr'. bubble_pass n i arr = Inr arr' \<and> length arr' = n \<and>
           mset (take (n - i) arr') = mset (take (n - i) arr) \<and>
           drop (n - i) arr' = drop (n - i) arr \<and>
           (\<forall>k \<le> n - i - 1. arr' ! k \<le> arr' ! (n - i - 1))"
proof -
  define m where "m = n - i - 1"
  have m: "Suc m = n - i" "m < n" using i by (auto simp: m_def)
  define I where "I = (\<lambda>j (a :: 'a list). length a = n \<and>
      mset (take (Suc m) a) = mset (take (Suc m) arr) \<and>
      drop (Suc m) a = drop (Suc m) arr \<and> (\<forall>k \<le> j. a ! k \<le> a ! j))"
  have init: "I 0 arr" using len by (simp add: I_def)
  have step: "\<exists>t'. bubble_step k t = Inr t' \<and> I (Suc k) t'" if "k < m" "I k t" for k t
  proof -
    from that m have lt: "Suc k < length t" "length t = n" by (auto simp: I_def)
    let ?t' = "if t ! k > t ! Suc k then t[k := t ! Suc k, Suc k := t ! k] else t"
    have eq: "bubble_step k t = Inr ?t'" using lt by (simp add: bubble_step_eq)
    have "length ?t' = n" using lt by simp
    moreover have "mset (take (Suc m) ?t') = mset (take (Suc m) arr)"
    proof -
      have "mset (take (Suc m) (t[k := t ! Suc k, Suc k := t ! k])) = mset (take (Suc m) t)"
        using mset_swap [of "Suc k" "take (Suc m) t" k] that(1) lt m
        by (simp add: take_update_swap)
      with that(2) show ?thesis by (simp add: I_def)
    qed
    moreover have "drop (Suc m) ?t' = drop (Suc m) arr"
      using that by (simp add: I_def)
    moreover have "\<forall>j \<le> Suc k. ?t' ! j \<le> ?t' ! Suc k"
    proof (intro allI impI)
      fix j assume j: "j \<le> Suc k"
      from that(2) have old: "\<forall>j \<le> k. t ! j \<le> t ! k" by (simp add: I_def)
      show "?t' ! j \<le> ?t' ! Suc k"
      proof (cases "t ! k > t ! Suc k")
        case True
        then show ?thesis using j old lt
          by (auto simp: nth_list_update le_Suc_eq)
      next
        case False
        then show ?thesis using j old lt
          by (auto simp: le_Suc_eq intro: order_trans)
      qed
    qed
    ultimately have "I (Suc k) ?t'" unfolding I_def by blast
    with eq show ?thesis by blast
  qed
  have "\<exists>s'. for_loop [0..<m] bubble_step arr = Inr s' \<and> I m s'"
    by (rule for_loop_upt_rule [where I = I, OF init]) (auto intro: step)
  then show ?thesis
    unfolding bubble_pass_def I_def m_def [symmetric] using m by (auto simp: m_def)
qed

lemma bubble_sort_spec:
  fixes data :: "'a::linorder list"
  shows "\<exists>r. bubble_sort data = Inr r \<and> mset r = mset data \<and> sorted r"
proof -
  define n where "n = length data"
  define J where "J = (\<lambda>i (a :: 'a list). length a = n \<and> mset a = mset data \<and>
      sorted (drop (n - i) a) \<and>
      (\<forall>x \<in> set (take (n - i) a). \<forall>y \<in> set (drop (n - i) a). x \<le> y))"
  have init: "J 0 data" by (simp add: J_def n_def)
  have step: "\<exists>t'. bubble_pass n i t = Inr t' \<and> J (Suc i) t'" if i: "i < n" and J: "J i t" for i t
  proof -
    from J have len: "length t = n" by (simp add: J_def)
    from bubble_pass_spec [OF len i] obtain t' where t':
      "bubble_pass n i t = Inr t'" "length t' = n"
      "mset (take (n - i) t') = mset (take (n - i) t)"
      "drop (n - i) t' = drop (n - i) t"
      "\<forall>k \<le> n - i - 1. t' ! k \<le> t' ! (n - i - 1)"
      by blast
    define m where "m = n - i - 1"
    have m: "n - i = Suc m" "n - Suc i = m" "m < n" using i by (auto simp: m_def)
    have set_eq: "set (take (Suc m) t') = set (take (Suc m) t)"
      using t'(3) m by (metis mset_eq_setD)
    have top: "x \<le> t' ! m" if "x \<in> set (take (Suc m) t')" for x
    proof -
      from that obtain k where "k < Suc m" "x = t' ! k"
        using t'(2) m by (auto simp: in_set_conv_nth)
      with t'(5) show ?thesis by (simp add: m_def)
    qed
    have mem: "t' ! m \<in> set (take (Suc m) t')"
      using t'(2) m by (auto simp: in_set_conv_nth intro!: exI [of _ m])
    have dr: "drop m t' = t' ! m # drop (Suc m) t"
      using t'(2,4) m by (simp add: Cons_nth_drop_Suc [symmetric])
    from J have oldS: "sorted (drop (Suc m) t)"
      and oldB: "\<forall>x \<in> set (take (Suc m) t). \<forall>y \<in> set (drop (Suc m) t). x \<le> y"
      by (simp_all add: J_def m)
    have "mset t' = mset (take (Suc m) t') + mset (drop (Suc m) t')"
      by (metis append_take_drop_id mset_append)
    also have "\<dots> = mset (take (Suc m) t) + mset (drop (Suc m) t)"
      using t'(3,4) m by simp
    also have "\<dots> = mset t"
      by (metis append_take_drop_id mset_append)
    finally have ms: "mset t' = mset data" using J by (simp add: J_def)
    have s: "sorted (drop m t')"
      using oldS oldB mem set_eq by (auto simp: dr)
    have b: "\<forall>x \<in> set (take m t'). \<forall>y \<in> set (drop m t'). x \<le> y"
    proof (intro ballI)
      fix x y assume x: "x \<in> set (take m t')" and y: "y \<in> set (drop m t')"
      from x have x': "x \<in> set (take (Suc m) t')"
        by (meson in_set_takeD le_SucI order_refl set_take_subset_set_take subsetD)
      from y consider "y = t' ! m" | "y \<in> set (drop (Suc m) t)" by (auto simp: dr)
      then show "x \<le> y"
      proof cases
        case 1 with top [OF x'] show ?thesis by simp
      next
        case 2 with x' set_eq oldB show ?thesis by blast
      qed
    qed
    from t'(1,2) ms s b show ?thesis by (auto simp: J_def m)
  qed
  have "\<exists>s'. for_loop [0..<n] (bubble_pass n) data = Inr s' \<and> J n s'"
    by (rule for_loop_upt_rule [where I = J, OF init]) (auto intro: step)
  then show ?thesis by (auto simp: bubble_sort_def J_def n_def Let_def)
qed

subsection \<open>Selection sort returns the sorted permutation\<close>

lemma min_step_eq:
  "j < length arr \<Longrightarrow> mi < length arr \<Longrightarrow>
   min_step arr j mi = Inr (if arr ! j < arr ! mi then j else mi)"
  by (simp add: min_step_def)

lemma selection_pass_spec:
  fixes arr :: "'a::linorder list"
  assumes len: "length arr = n" and i: "i < n"
  shows "\<exists>mi. i \<le> mi \<and> mi < n \<and> (\<forall>k. i \<le> k \<and> k < n \<longrightarrow> arr ! mi \<le> arr ! k) \<and>
           selection_pass n i arr = Inr (arr[i := arr ! mi, mi := arr ! i])"
proof -
  define I where "I = (\<lambda>j mi. i \<le> mi \<and> mi < j \<and> (\<forall>k. i \<le> k \<and> k < j \<longrightarrow> arr ! mi \<le> arr ! k))"
  have init: "I (Suc i) i" by (auto simp: I_def less_Suc_eq_le)
  have step: "\<exists>t'. min_step arr k t = Inr t' \<and> I (Suc k) t'" if "k < n" "I k t" for k t
  proof -
    from that len have lt: "k < length arr" "t < length arr" by (auto simp: I_def)
    have "I (Suc k) (if arr ! k < arr ! t then k else t)"
      using that(2) unfolding I_def
      by (auto simp: less_Suc_eq intro: order_trans less_imp_le)
    with lt show ?thesis by (simp add: min_step_eq)
  qed
  have "\<exists>s'. for_loop [Suc i..<n] (min_step arr) i = Inr s' \<and> I n s'"
    using i by (intro for_loop_upt_rule [where I = I, OF init]) (auto intro: step)
  then obtain mi where mi: "for_loop [Suc i..<n] (min_step arr) i = Inr mi" "I n mi" by blast
  from mi(2) have b: "i \<le> mi" "mi < n" "\<forall>k. i \<le> k \<and> k < n \<longrightarrow> arr ! mi \<le> arr ! k"
    by (auto simp: I_def)
  have "selection_pass n i arr = Inr (arr[i := arr ! mi, mi := arr ! i])"
    using mi(1) b i len by (simp add: selection_pass_def swap_items_nat)
  with b show ?thesis by blast
qed

lemma selection_sort_spec:
  fixes data :: "'a::linorder list"
  shows "\<exists>r. selection_sort data = Inr r \<and> mset r = mset data \<and> sorted r"
proof -
  define n where "n = length data"
  define J where "J = (\<lambda>i (a :: 'a list). length a = n \<and> mset a = mset data \<and>
      sorted (take i a) \<and>
      (\<forall>x \<in> set (take i a). \<forall>y \<in> set (drop i a). x \<le> y))"
  have init: "J 0 data" by (simp add: J_def n_def)
  have step: "\<exists>t'. selection_pass n i t = Inr t' \<and> J (Suc i) t'" if i: "i < n" and J: "J i t" for i t
  proof -
    from J have len: "length t = n" by (simp add: J_def)
    from selection_pass_spec [OF len i] obtain mi where mi:
      "i \<le> mi" "mi < n" "\<forall>k. i \<le> k \<and> k < n \<longrightarrow> t ! mi \<le> t ! k"
      "selection_pass n i t = Inr (t[i := t ! mi, mi := t ! i])"
      by blast
    define t' where "t' = t[i := t ! mi, mi := t ! i]"
    have len': "length t' = n" using len by (simp add: t'_def)
    have ms: "mset t' = mset t"
      unfolding t'_def using mset_swap [of mi t i] mi(2) i len by simp
    have tk: "take i t' = take i t" using mi(1) by (simp add: t'_def)
    have ti: "t' ! i = t ! mi" using i mi len by (auto simp: t'_def nth_list_update)
    have msd: "mset (drop i t') = mset (drop i t)"
    proof -
      have "mset (take i t') + mset (drop i t') = mset (take i t) + mset (drop i t)"
        using ms by (metis append_take_drop_id mset_append)
      with tk show ?thesis by simp
    qed
    then have sd: "set (drop i t') = set (drop i t)" by (rule mset_eq_setD)
    have least: "t ! mi \<le> y" if "y \<in> set (drop i t)" for y
    proof -
      from that obtain k where "k < n - i" "y = t ! (i + k)"
        using len by (auto simp: in_set_conv_nth)
      with mi(3) show ?thesis by simp
    qed
    have mem: "t ! mi \<in> set (drop i t)"
    proof -
      have "drop i t ! (mi - i) = t ! mi" using mi len by simp
      moreover have "mi - i < length (drop i t)" using mi len i by simp
      ultimately show ?thesis by (metis nth_mem)
    qed
    from J have oldS: "sorted (take i t)"
      and oldB: "\<forall>x \<in> set (take i t). \<forall>y \<in> set (drop i t). x \<le> y"
      by (simp_all add: J_def)
    have tS: "take (Suc i) t' = take i t @ [t ! mi]"
      using i len' tk ti by (simp add: take_Suc_conv_app_nth)
    have s: "sorted (take (Suc i) t')"
      using oldS oldB mem by (auto simp: tS sorted_append)
    have sub: "set (drop (Suc i) t') \<subseteq> set (drop i t)"
      using sd by (metis set_drop_subset_set_drop le_SucI order_refl)
    have b: "\<forall>x \<in> set (take (Suc i) t'). \<forall>y \<in> set (drop (Suc i) t'). x \<le> y"
      using oldB least sub by (auto simp: tS)
    from mi(4) len' ms s b J show ?thesis by (auto simp: J_def t'_def)
  qed
  have "\<exists>s'. for_loop [0..<n] (selection_pass n) data = Inr s' \<and> J n s'"
    by (rule for_loop_upt_rule [where I = J, OF init]) (auto intro: step)
  then show ?thesis by (auto simp: selection_sort_def J_def n_def Let_def)
qed

subsection \<open>Insertion sort is the stable sort by key\<close>

lemma getitem_int: "0 \<le> j \<Longrightarrow> nat j < length arr \<Longrightarrow> getitem arr j = Inr (arr ! nat j)"
  by (simp add: getitem_def)

lemma setitem_int: "0 \<le> j \<Longrightarrow> nat j < length arr \<Longrightarrow> setitem arr j v = Inr (arr[nat j := v])"
  by (simp add: setitem_def)

lemma shift_loop_stop_neg: "j < 0 \<Longrightarrow> shift_loop f key j arr = Inr (j, arr)"
  by (subst shift_loop.simps) simp

lemma shift_loop_stop_le:
  "0 \<le> j \<Longrightarrow> nat j < length arr \<Longrightarrow> \<not> f key < f (arr ! nat j) \<Longrightarrow>
   shift_loop f key j arr = Inr (j, arr)"
  by (subst shift_loop.simps) (simp add: getitem_int)

lemma shift_loop_step:
  assumes "0 \<le> j" "Suc (nat j) < length arr" "f key < f (arr ! nat j)"
  shows "shift_loop f key j arr = shift_loop f key (j - 1) (arr[Suc (nat j) := arr ! nat j])"
proof -
  have g: "getitem arr j = Inr (arr ! nat j)" using assms by (simp add: getitem_int)
  have "nat (j + 1) = Suc (nat j)" using assms(1) by simp
  then have s: "setitem arr (j + 1) (arr ! nat j) = Inr (arr[Suc (nat j) := arr ! nat j])"
    using assms setitem_int [of "j + 1" arr "arr ! nat j"] by simp
  show ?thesis
    by (subst shift_loop.simps) (simp add: g s assms)
qed

lemma shift_loop_spec:
  assumes "\<forall>y \<in> set A2. f key < f y" and "A1 = [] \<or> \<not> f key < f (last A1)"
  shows "shift_loop f key (int (length A1 + length A2) - 1) (A1 @ A2 @ x # B) =
           Inr (int (length A1) - 1, A1 @ (if A2 = [] then x else hd A2) # A2 @ B)"
  using assms
proof (induction A2 arbitrary: x B rule: rev_induct)
  case Nil
  show ?case
  proof (cases "A1 = []")
    case True
    then show ?thesis by (simp add: shift_loop_stop_neg)
  next
    case False
    define j where "j = int (length A1) - 1"
    have j0: "0 \<le> j" and nj: "nat j = length A1 - 1"
      using False by (cases A1; simp add: j_def)+
    have lt: "nat j < length (A1 @ x # B)" using nj False by simp
    have "(A1 @ x # B) ! nat j = last A1"
      using False nj by (simp add: nth_append last_conv_nth)
    with Nil.prems False have "\<not> f key < f ((A1 @ x # B) ! nat j)" by simp
    from shift_loop_stop_le [OF j0 lt this] show ?thesis by (simp add: j_def)
  qed
next
  case (snoc a A2)
  define j where "j = int (length A1 + length A2)"
  define arr where "arr = A1 @ A2 @ a # x # B"
  have j0: "0 \<le> j" and nj: "nat j = length A1 + length A2" by (simp_all add: j_def)
  have lt: "Suc (nat j) < length arr" by (simp add: nj arr_def)
  have rd: "arr ! nat j = a" by (simp add: nj arr_def nth_append)
  have wr: "arr[Suc (nat j) := a] = A1 @ A2 @ a # a # B"
    by (simp add: nj arr_def list_update_append)
  have gt: "f key < f (arr ! nat j)" using snoc.prems rd by simp
  have IH: "shift_loop f key (j - 1) (A1 @ A2 @ a # a # B) =
      Inr (int (length A1) - 1, A1 @ (if A2 = [] then a else hd A2) # A2 @ a # B)"
    using snoc.IH [of a "a # B"] snoc.prems by (simp add: j_def)
  have "shift_loop f key j arr =
      Inr (int (length A1) - 1, A1 @ (if A2 = [] then a else hd A2) # A2 @ a # B)"
    using shift_loop_step [OF j0 lt gt] IH by (simp only: rd wr)
  moreover have "int (length A1 + length (A2 @ [a])) - 1 = j" by (simp add: j_def)
  moreover have "A1 @ (A2 @ [a]) @ x # B = arr" by (simp add: arr_def)
  moreover have "(if A2 @ [a] = [] then x else hd (A2 @ [a])) = (if A2 = [] then a else hd A2)"
    by (simp add: hd_append)
  moreover have "(A2 @ [a]) @ B = A2 @ a # B" by simp
  ultimately show ?case by (simp only:)
qed

lemma insertion_pass_spec:
  assumes A2: "\<forall>y \<in> set A2. f key < f y" and A1: "A1 = [] \<or> \<not> f key < f (last A1)"
  shows "insertion_pass f (length A1 + length A2) (A1 @ A2 @ key # R) = Inr (A1 @ key # A2 @ R)"
proof -
  define i where "i = length A1 + length A2"
  define arr where "arr = A1 @ A2 @ key # R"
  define z where "z = (if A2 = [] then key else hd A2)"
  have "i < length arr" "arr ! i = key" by (simp_all add: i_def arr_def nth_append)
  then have g: "getitem arr (int i) = Inr key" by simp
  have sh: "shift_loop f key (int i - 1) arr = Inr (int (length A1) - 1, A1 @ z # A2 @ R)"
    unfolding i_def arr_def z_def by (rule shift_loop_spec [OF A2 A1])
  have "setitem (A1 @ z # A2 @ R) (int (length A1)) key = Inr ((A1 @ z # A2 @ R)[length A1 := key])"
    by (rule setitem_nat) simp
  then have st: "setitem (A1 @ z # A2 @ R) (int (length A1) - 1 + 1) key = Inr (A1 @ key # A2 @ R)"
    by simp
  show ?thesis
    unfolding i_def [symmetric] arr_def [symmetric]
    by (simp add: insertion_pass_def g sh st)
qed

lemma sort_key_snoc:
  fixes f :: "'a \<Rightarrow> 'k::linorder"
  assumes eq: "sort_key f xs = A1 @ A2"
    and A2: "\<forall>y \<in> set A2. f key < f y" and A1: "A1 = [] \<or> \<not> f key < f (last A1)"
  shows "sort_key f (xs @ [key]) = A1 @ key # A2"
proof (rule properties_for_sort_key)
  have "mset (A1 @ A2) = mset xs" using eq [symmetric] by simp
  then show "mset (A1 @ key # A2) = mset (xs @ [key])" by simp
next
  have srt: "sorted (map f (A1 @ A2))" using eq [symmetric] by simp
  have le: "f y \<le> f key" if "y \<in> set A1" for y
  proof -
    from that have ne: "A1 \<noteq> []" by auto
    then obtain B l where B: "A1 = B @ [l]" by (cases A1 rule: rev_cases) auto
    with A1 have l: "f l \<le> f key" by simp
    have "sorted (map f B @ [f l])" using srt B by (simp add: sorted_append)
    then have "\<forall>x \<in> set B. f x \<le> f l" by (simp add: sorted_append)
    with that B have "f y \<le> f l" by auto
    with l show ?thesis by simp
  qed
  show "sorted (map f (A1 @ key # A2))"
    using srt le A2 by (auto simp: sorted_append less_imp_le)
  fix k assume "k \<in> set (A1 @ key # A2)"
  have "filter (\<lambda>x. f x = f k) (A1 @ A2) = filter (\<lambda>x. f x = f k) xs"
    unfolding eq [symmetric] by (rule sort_key_stable)
  then have st: "filter (\<lambda>x. f k = f x) (A1 @ A2) = filter (\<lambda>x. f k = f x) xs"
    by (simp add: eq_commute [of "f k"])
  show "filter (\<lambda>x. f k = f x) (A1 @ key # A2) = filter (\<lambda>x. f k = f x) (xs @ [key])"
  proof (cases "f k = f key")
    case True
    with A2 have "filter (\<lambda>x. f k = f x) A2 = []" by (auto simp: filter_empty_conv)
    with st True show ?thesis by simp
  next
    case False
    with st show ?thesis by simp
  qed
qed

lemma split_greater_suffix:
  fixes f :: "'a \<Rightarrow> 'k::linorder"
  obtains A1 A2 where "P = A1 @ A2" "\<forall>y \<in> set A2. f key < f y"
    "A1 = [] \<or> \<not> f key < f (last A1)"
proof
  let ?p = "\<lambda>y. f key < f y"
  let ?A1 = "rev (dropWhile ?p (rev P))" and ?A2 = "rev (takeWhile ?p (rev P))"
  have "?A1 @ ?A2 = rev (takeWhile ?p (rev P) @ dropWhile ?p (rev P))"
    by (simp only: rev_append)
  also have "\<dots> = P" by simp
  finally show "P = ?A1 @ ?A2" by simp
  show "\<forall>y \<in> set ?A2. f key < f y" by (auto dest: set_takeWhileD)
  show "?A1 = [] \<or> \<not> f key < f (last ?A1)"
  proof (cases "dropWhile ?p (rev P) = []")
    case True
    then show ?thesis by simp
  next
    case False
    then have "\<not> ?p (hd (dropWhile ?p (rev P)))" by (rule hd_dropWhile)
    with False show ?thesis by (simp add: last_rev)
  qed
qed

lemma insertion_sort_key_eq:
  fixes f :: "'a \<Rightarrow> 'k::linorder"
  shows "insertion_sort_key f data = Inr (sort_key f data)"
proof (cases "data = []")
  case True
  then show ?thesis by (simp add: insertion_sort_key_def)
next
  case False
  define n where "n = length data"
  have n: "1 \<le> n" using False by (cases data) (auto simp: n_def)
  define J where "J = (\<lambda>i (a :: 'a list). a = sort_key f (take i data) @ drop i data)"
  have init: "J 1 data"
    using False by (cases data) (auto simp: J_def)
  have step: "\<exists>t'. insertion_pass f i t = Inr t' \<and> J (Suc i) t'" if i: "i < n" and J: "J i t" for i t
  proof -
    define P where "P = sort_key f (take i data)"
    define key where "key = data ! i"
    define R where "R = drop (Suc i) data"
    have lenP: "length P = i" using i by (simp add: P_def n_def)
    have t: "t = P @ key # R"
      using J i by (simp add: J_def P_def key_def R_def n_def Cons_nth_drop_Suc)
    obtain A1 A2 where A: "P = A1 @ A2" "\<forall>y \<in> set A2. f key < f y"
      "A1 = [] \<or> \<not> f key < f (last A1)"
      by (rule split_greater_suffix [of P f key])
    have "insertion_pass f (length A1 + length A2) (A1 @ A2 @ key # R) = Inr (A1 @ key # A2 @ R)"
      by (rule insertion_pass_spec [OF A(2,3)])
    then have ip: "insertion_pass f i t = Inr (A1 @ key # A2 @ R)"
      using lenP A(1) t by simp
    have "sort_key f (take i data @ [key]) = A1 @ key # A2"
      by (rule sort_key_snoc [OF _ A(2,3)]) (simp add: P_def [symmetric] A(1))
    moreover have "take (Suc i) data = take i data @ [key]"
      using i by (simp add: key_def n_def take_Suc_conv_app_nth)
    ultimately have "J (Suc i) (A1 @ key # A2 @ R)"
      by (simp add: J_def R_def)
    with ip show ?thesis by blast
  qed
  have "\<exists>s'. for_loop [1..<n] (insertion_pass f) data = Inr s' \<and> J n s'"
    by (rule for_loop_upt_rule [where I = J, OF init n]) (auto intro: step)
  then show ?thesis by (auto simp: insertion_sort_key_def J_def n_def)
qed

lemma insertion_sort_eq: "insertion_sort data = Inr (sort data)"
  by (simp add: insertion_sort_def insertion_sort_key_eq)

lemma bubble_sort_eq: "bubble_sort data = Inr (sort data)"
  using bubble_sort_spec [of data] by (auto simp: properties_for_sort)

lemma selection_sort_eq: "selection_sort data = Inr (sort data)"
  using selection_sort_spec [of data] by (auto simp: properties_for_sort)

section \<open>Claims about the sorting algorithms\<close>

text \<open>
  Claim C1. For every finite list of strings (of elements of any linear order), each of
  \<open>bubble_sort\<close>, \<open>selection_sort\<close> and \<open>insertion_sort\<close> returns a list (it raises no
  exception) that is a permutation of its input (the same multiset of elements) and is
  non-decreasing: \<open>result[i] \<le> result[i+1]\<close> for every adjacent pair.
\<close>

theorem sorts_return_sorted_permutation:
  fixes data :: "'a::linorder list"
  shows "(\<exists>r. bubble_sort data = Inr r \<and> mset r = mset data \<and>
            (\<forall>i. i + 1 < length r \<longrightarrow> r ! i \<le> r ! (i + 1))) \<and>
         (\<exists>r. selection_sort data = Inr r \<and> mset r = mset data \<and>
            (\<forall>i. i + 1 < length r \<longrightarrow> r ! i \<le> r ! (i + 1))) \<and>
         (\<exists>r. insertion_sort data = Inr r \<and> mset r = mset data \<and>
            (\<forall>i. i + 1 < length r \<longrightarrow> r ! i \<le> r ! (i + 1)))"
proof -
  have "mset (sort data) = mset data" by simp
  moreover have "\<forall>i. i + 1 < length (sort data) \<longrightarrow> sort data ! i \<le> sort data ! (i + 1)"
    using sorted_sort [of data] by (simp only: sorted_iff_nth_Suc Suc_eq_plus1)
  ultimately show ?thesis
    unfolding bubble_sort_eq selection_sort_eq insertion_sort_eq by blast
qed

text \<open>
  The theorem at the input \<^verbatim>\<open>["b", "a", "a", "c"]\<close>, where an adjacent pair exists.
\<close>

theorem sorts_return_sorted_permutation_witness:
  "(\<exists>r. bubble_sort [''b'', ''a'', ''a'', ''c''] = Inr r \<and> mset r = mset [''b'', ''a'', ''a'', ''c''] \<and>
      0 + 1 < length r \<and> r ! 0 \<le> r ! (0 + 1)) \<and>
   (\<exists>r. selection_sort [''b'', ''a'', ''a'', ''c''] = Inr r \<and> mset r = mset [''b'', ''a'', ''a'', ''c''] \<and>
      0 + 1 < length r \<and> r ! 0 \<le> r ! (0 + 1)) \<and>
   (\<exists>r. insertion_sort [''b'', ''a'', ''a'', ''c''] = Inr r \<and> mset r = mset [''b'', ''a'', ''a'', ''c''] \<and>
      0 + 1 < length r \<and> r ! 0 \<le> r ! (0 + 1))"
proof -
  define xs :: "string list" where "xs = [''b'', ''a'', ''a'', ''c'']"
  have len: "length xs = 4" by (simp add: xs_def)
  have two: "0 + 1 < length r" if "mset r = mset xs" for r
    using mset_eq_length [OF that] len by simp
  note T = sorts_return_sorted_permutation [of xs]
  from T obtain r1 where r1: "bubble_sort xs = Inr r1" "mset r1 = mset xs"
    "\<forall>i. i + 1 < length r1 \<longrightarrow> r1 ! i \<le> r1 ! (i + 1)" by blast
  from T obtain r2 where r2: "selection_sort xs = Inr r2" "mset r2 = mset xs"
    "\<forall>i. i + 1 < length r2 \<longrightarrow> r2 ! i \<le> r2 ! (i + 1)" by blast
  from T obtain r3 where r3: "insertion_sort xs = Inr r3" "mset r3 = mset xs"
    "\<forall>i. i + 1 < length r3 \<longrightarrow> r3 ! i \<le> r3 ! (i + 1)" by blast
  have "\<exists>r. bubble_sort xs = Inr r \<and> mset r = mset xs \<and> 0 + 1 < length r \<and> r ! 0 \<le> r ! (0 + 1)"
    using r1 two [OF r1(2)] by blast
  moreover
  have "\<exists>r. selection_sort xs = Inr r \<and> mset r = mset xs \<and> 0 + 1 < length r \<and> r ! 0 \<le> r ! (0 + 1)"
    using r2 two [OF r2(2)] by blast
  moreover
  have "\<exists>r. insertion_sort xs = Inr r \<and> mset r = mset xs \<and> 0 + 1 < length r \<and> r ! 0 \<le> r ! (0 + 1)"
    using r3 two [OF r3(2)] by blast
  ultimately show ?thesis unfolding xs_def by (intro conjI)
qed

text \<open>
  Claim C9. The three sorting algorithms are extensionally equal: on every finite list
  they return the same result list; on \<^verbatim>\<open>["b", "a", "a", "c"]\<close> each of the three
  returns \<^verbatim>\<open>["a", "a", "b", "c"]\<close>.
\<close>

theorem sorts_extensionally_equal:
  fixes data :: "'a::linorder list"
  shows "bubble_sort data = selection_sort data \<and> selection_sort data = insertion_sort data \<and>
         bubble_sort [''b'', ''a'', ''a'', ''c''] = Inr [''a'', ''a'', ''b'', ''c''] \<and>
         selection_sort [''b'', ''a'', ''a'', ''c''] = Inr [''a'', ''a'', ''b'', ''c''] \<and>
         insertion_sort [''b'', ''a'', ''a'', ''c''] = Inr [''a'', ''a'', ''b'', ''c'']"
proof (intro conjI)
  show "bubble_sort data = selection_sort data"
    by (simp only: bubble_sort_eq selection_sort_eq)
  show "selection_sort data = insertion_sort data"
    by (simp only: selection_sort_eq insertion_sort_eq)
  show "bubble_sort [''b'', ''a'', ''a'', ''c''] = Inr [''a'', ''a'', ''b'', ''c'']"
    by code_simp
  show "selection_sort [''b'', ''a'', ''a'', ''c''] = Inr [''a'', ''a'', ''b'', ''c'']"
    by code_simp
  show "insertion_sort [''b'', ''a'', ''a'', ''c''] = Inr [''a'', ''a'', ''b'', ''c'']"
    by code_simp
qed

text \<open>The general part of the theorem at the input \<open>[3, 1, 2]\<close>.\<close>

theorem sorts_extensionally_equal_witness:
  "bubble_sort [3, 1, 2 :: nat] = selection_sort [3, 1, 2] \<and>
   selection_sort [3, 1, 2 :: nat] = insertion_sort [3, 1, 2]"
  using sorts_extensionally_equal [of "[3, 1, 2 :: nat]", THEN conjunct1]
    sorts_extensionally_equal [of "[3, 1, 2 :: nat]", THEN conjunct2, THEN conjunct1]
  by (rule conjI)

lemma stable_positions:
  fixes r :: "('a \<times> nat) list"
  assumes flt: "\<And>k. filter (\<lambda>x. fst x = k) r = filter (\<lambda>x. fst x = k) (zip data [0..<length data])"
    and ij: "i < j" "j < length r" and eq: "fst (r ! i) = fst (r ! j)"
  shows "snd (r ! i) < snd (r ! j)"
proof -
  define k where "k = fst (r ! j)"
  let ?F = "filter (\<lambda>x. fst x = k)"
  let ?t = "zip data [0..<length data]"
  have "sorted_wrt (<) (map snd ?t)" by simp
  then have "sorted_wrt (\<lambda>x y. snd x < snd y) ?t" by (simp only: sorted_wrt_map)
  then have "sorted_wrt (\<lambda>x y. snd x < snd y) (?F ?t)" by (rule sorted_wrt_filter)
  then have s: "sorted_wrt (\<lambda>x y. snd x < snd y) (?F r)" by (simp only: flt)
  have r: "r = take j r @ r ! j # drop (Suc j) r"
    using ij(2) by (simp add: id_take_nth_drop [symmetric])
  have "?F r = ?F (take j r) @ r ! j # ?F (drop (Suc j) r)"
    by (subst r) (simp add: k_def)
  with s have all: "\<forall>x \<in> set (?F (take j r)). snd x < snd (r ! j)"
    by (simp add: sorted_wrt_append)
  have "r ! i \<in> set (take j r)"
    using ij by (auto simp: in_set_conv_nth intro!: exI [of _ i])
  then have "r ! i \<in> set (?F (take j r))" using eq by (simp add: k_def)
  with all show ?thesis by (rule bspec)
qed

text \<open>
  Claim C2. \<open>insertion_sort\<close> is stable. Records that carry a value \<open>f x\<close> and are compared
  by it come out sorted by value, and for every value \<open>k\<close> the records of value \<open>k\<close> stand in
  the output in their input order. In particular, when every element of the input is
  tagged with its input position (and compared by its string alone), the run returns the
  same strings as the untagged run, and any two equal strings stand in the output in the
  order of their input positions.
\<close>

theorem insertion_sort_stable:
  fixes data :: "'a::linorder list" and f :: "'b \<Rightarrow> 'k::linorder"
  shows "(\<exists>r. insertion_sort_key f recs = Inr r \<and> sorted (map f r) \<and>
            (\<forall>k. filter (\<lambda>x. f x = k) r = filter (\<lambda>x. f x = k) recs)) \<and>
         (\<exists>r. insertion_sort_key fst (zip data [0..<length data]) = Inr r \<and>
            insertion_sort data = Inr (map fst r) \<and>
            (\<forall>i j. i < j \<and> j < length r \<and> fst (r ! i) = fst (r ! j) \<longrightarrow> snd (r ! i) < snd (r ! j)))"
proof
  show "\<exists>r. insertion_sort_key f recs = Inr r \<and> sorted (map f r) \<and>
            (\<forall>k. filter (\<lambda>x. f x = k) r = filter (\<lambda>x. f x = k) recs)"
    by (simp add: insertion_sort_key_eq sort_key_stable)
next
  let ?t = "zip data [0..<length data]"
  define r where "r = sort_key fst ?t"
  have run: "insertion_sort_key fst ?t = Inr r" by (simp add: r_def insertion_sort_key_eq)
  have flt: "filter (\<lambda>x. fst x = k) r = filter (\<lambda>x. fst x = k) ?t" for k
    by (simp add: r_def sort_key_stable)
  have "mset r = mset ?t" by (simp add: r_def)
  then have "mset (map fst r) = mset (map fst ?t)" by (metis mset_map)
  then have "mset (map fst r) = mset data" by simp
  moreover have "sorted (map fst r)" by (simp add: r_def)
  ultimately have "sort data = map fst r" by (rule properties_for_sort)
  then have plain: "insertion_sort data = Inr (map fst r)" by (simp add: insertion_sort_eq)
  have "\<forall>i j. i < j \<and> j < length r \<and> fst (r ! i) = fst (r ! j) \<longrightarrow> snd (r ! i) < snd (r ! j)"
    using stable_positions [of r data, OF flt] by blast
  with run plain show "\<exists>r. insertion_sort_key fst ?t = Inr r \<and>
            insertion_sort data = Inr (map fst r) \<and>
            (\<forall>i j. i < j \<and> j < length r \<and> fst (r ! i) = fst (r ! j) \<longrightarrow> snd (r ! i) < snd (r ! j))"
    by blast
qed

text \<open>
  The theorem at \<^verbatim>\<open>["b", "a", "a", "c"]\<close>: the two \<^verbatim>\<open>"a"\<close> (input positions 1 and 2)
  are the first two elements of the output, in that order.
\<close>

theorem insertion_sort_stable_witness:
  "\<exists>r. insertion_sort_key fst (zip [''b'', ''a'', ''a'', ''c''] [0..<length [''b'', ''a'', ''a'', ''c'']]) = Inr r \<and>
       insertion_sort [''b'', ''a'', ''a'', ''c''] = Inr (map fst r) \<and>
       (0::nat) < 1 \<and> 1 < length r \<and> fst (r ! 0) = fst (r ! 1) \<and> snd (r ! 0) < snd (r ! 1)"
proof -
  define xs :: "string list" where "xs = [''b'', ''a'', ''a'', ''c'']"
  have run: "insertion_sort_key fst (zip xs [0..<length xs]) =
      Inr [(''a'', 1), (''a'', 2), (''b'', 0), (''c'', 3)]"
    unfolding xs_def by code_simp
  from insertion_sort_stable [where data = xs and f = "fst :: string \<times> nat \<Rightarrow> string" and recs = "[]",
      THEN conjunct2]
  obtain r where r: "insertion_sort_key fst (zip xs [0..<length xs]) = Inr r"
    "insertion_sort xs = Inr (map fst r)"
    "\<forall>i j. i < j \<and> j < length r \<and> fst (r ! i) = fst (r ! j) \<longrightarrow> snd (r ! i) < snd (r ! j)"
    by blast
  from r(1) run have req: "r = [(''a'', 1), (''a'', 2), (''b'', 0), (''c'', 3)]" by simp
  have pre: "(0::nat) < 1 \<and> 1 < length r \<and> fst (r ! 0) = fst (r ! 1)" by (simp add: req)
  with r(3) have "snd (r ! 0) < snd (r ! 1)" by blast
  with r(1,2) pre have
    "\<exists>r. insertion_sort_key fst (zip xs [0..<length xs]) = Inr r \<and>
       insertion_sort xs = Inr (map fst r) \<and>
       (0::nat) < 1 \<and> 1 < length r \<and> fst (r ! 0) = fst (r ! 1) \<and> snd (r ! 0) < snd (r ! 1)"
    by blast
  then show ?thesis unfolding xs_def .
qed

section \<open>Claims about the container benchmark\<close>

subsection \<open>The loader\<close>

lemma strip_decompose:
  "\<exists>pre suf. s = pre @ strip isspace s @ suf \<and> list_all isspace pre \<and> list_all isspace suf"
proof -
  let ?rest = "dropWhile isspace s"
  let ?pre = "takeWhile isspace s"
  let ?suf = "rev (takeWhile isspace (rev ?rest))"
  have "rev ?rest = takeWhile isspace (rev ?rest) @ dropWhile isspace (rev ?rest)" by simp
  then have "rev (rev ?rest) = rev (takeWhile isspace (rev ?rest) @ dropWhile isspace (rev ?rest))"
    by (rule arg_cong)
  then have r: "?rest = strip isspace s @ ?suf"
    unfolding strip_def rev_append rev_rev_ident .
  have "s = ?pre @ ?rest" by simp
  with r have "s = ?pre @ strip isspace s @ ?suf" by simp
  moreover have "list_all isspace ?pre"
    by (auto simp: list_all_iff dest: set_takeWhileD)
  moreover have "list_all isspace ?suf"
    by (auto simp: list_all_iff dest: set_takeWhileD)
  ultimately show ?thesis by blast
qed

lemma strip_ends:
  assumes "strip isspace s \<noteq> []"
  shows "\<not> isspace (hd (strip isspace s)) \<and> \<not> isspace (last (strip isspace s))"
proof -
  let ?rest = "dropWhile isspace s"
  let ?d = "dropWhile isspace (rev ?rest)"
  from assms have d: "?d \<noteq> []" by (simp add: strip_def)
  then have 1: "\<not> isspace (hd ?d)" by (rule hd_dropWhile)
  have l: "last (strip isspace s) = hd ?d" using d by (simp add: strip_def last_rev)
  have rest: "?rest \<noteq> []"
  proof
    assume a: "?rest = []"
    have "?d = []" unfolding a by simp
    with d show False by simp
  qed
  then have 2: "\<not> isspace (hd ?rest)" by (rule hd_dropWhile)
  then have "\<not> isspace (last (rev ?rest))" using rest by (simp add: last_rev)
  have "\<exists>suf. ?rest = strip isspace s @ suf"
  proof -
    have "rev ?rest = takeWhile isspace (rev ?rest) @ ?d" by simp
    then have "rev (rev ?rest) = rev (takeWhile isspace (rev ?rest) @ ?d)" by (rule arg_cong)
    then have "?rest = strip isspace s @ rev (takeWhile isspace (rev ?rest))"
      unfolding strip_def rev_append rev_rev_ident .
    then show ?thesis by blast
  qed
  then obtain suf where "?rest = strip isspace s @ suf" by blast
  then have "hd ?rest = hd (strip isspace s)" using assms by (metis hd_append2)
  with 1 2 l show ?thesis by simp
qed

lemma load_eq: "load isspace raw = filter (\<lambda>l. l \<noteq> []) (map (strip isspace) raw)"
  by (induction raw) (simp_all add: load_def)

lemma load_eq2: "load isspace raw = map (strip isspace) (filter (\<lambda>l. strip isspace l \<noteq> []) raw)"
  by (induction raw) (simp_all add: load_def)

text \<open>
  Claim C4. Loading a listing whose raw lines may include blank or whitespace-only lines
  yields exactly the trimmed lines that are not empty after trimming, in their original
  order; the number of loaded records is the number of such lines. Trimming a line removes
  a prefix and a suffix of whitespace and leaves a string that neither starts nor ends
  with whitespace.
\<close>

theorem loader_keeps_trimmed_nonblank_lines:
  "load isspace raw = map (strip isspace) (filter (\<lambda>l. strip isspace l \<noteq> []) raw) \<and>
   length (load isspace raw) = length (filter (\<lambda>l. strip isspace l \<noteq> []) raw) \<and>
   (\<forall>l. \<exists>pre suf. l = pre @ strip isspace l @ suf \<and> list_all isspace pre \<and> list_all isspace suf \<and>
      (strip isspace l \<noteq> [] \<longrightarrow>
         \<not> isspace (hd (strip isspace l)) \<and> \<not> isspace (last (strip isspace l))))"
proof (intro conjI allI)
  show "load isspace raw = map (strip isspace) (filter (\<lambda>l. strip isspace l \<noteq> []) raw)"
    by (rule load_eq2)
  show "length (load isspace raw) = length (filter (\<lambda>l. strip isspace l \<noteq> []) raw)"
    by (simp add: load_eq2)
  fix l :: "'a list"
  from strip_decompose [of l isspace] obtain pre suf where
    "l = pre @ strip isspace l @ suf" "list_all isspace pre" "list_all isspace suf" by blast
  with strip_ends [of isspace l]
  show "\<exists>pre suf. l = pre @ strip isspace l @ suf \<and> list_all isspace pre \<and> list_all isspace suf \<and>
      (strip isspace l \<noteq> [] \<longrightarrow>
         \<not> isspace (hd (strip isspace l)) \<and> \<not> isspace (last (strip isspace l)))"
    by blast
qed

text \<open>The theorem at a listing of five raw lines, two of them blank.\<close>

theorem loader_keeps_trimmed_nonblank_lines_witness:
  "load ascii_space [''  a.txt '', ''   '', [], ''b c'', '' d''] = [''a.txt'', ''b c'', ''d''] \<and>
   length (load ascii_space [''  a.txt '', ''   '', [], ''b c'', '' d'']) = 3 \<and>
   strip ascii_space ''  a.txt '' \<noteq> [] \<and>
   \<not> ascii_space (hd (strip ascii_space ''  a.txt '')) \<and>
   \<not> ascii_space (last (strip ascii_space ''  a.txt ''))"
proof -
  define raw where "raw = [''  a.txt '', ''   '', [], ''b c'', '' d'']"
  define l where "l = ''  a.txt ''"
  note T = loader_keeps_trimmed_nonblank_lines [of ascii_space raw]
  have ne: "strip ascii_space l \<noteq> []" unfolding l_def by code_simp
  from T have "\<exists>pre suf. l = pre @ strip ascii_space l @ suf \<and> list_all ascii_space pre \<and>
      list_all ascii_space suf \<and>
      (strip ascii_space l \<noteq> [] \<longrightarrow>
         \<not> ascii_space (hd (strip ascii_space l)) \<and> \<not> ascii_space (last (strip ascii_space l)))"
    by blast
  with ne have ends: "\<not> ascii_space (hd (strip ascii_space l)) \<and> \<not> ascii_space (last (strip ascii_space l))"
    by blast
  from T have "load ascii_space raw = map (strip ascii_space) (filter (\<lambda>l. strip ascii_space l \<noteq> []) raw)"
    by blast
  also have "\<dots> = [''a.txt'', ''b c'', ''d'']" unfolding raw_def by code_simp
  finally have A: "load ascii_space raw = [''a.txt'', ''b c'', ''d'']" .
  from T have "length (load ascii_space raw) = length (filter (\<lambda>l. strip ascii_space l \<noteq> []) raw)"
    by blast
  also have "\<dots> = 3" unfolding raw_def by code_simp
  finally have B: "length (load ascii_space raw) = 3" .
  from A B ne ends show ?thesis unfolding raw_def l_def by (intro conjI) (elim conjE, assumption)+
qed

subsection \<open>Positional retrieval\<close>

lemma build_stack_eq: "build_stack lines = lines"
proof -
  have "fold (\<lambda>line stack. stack @ [line]) ls acc = acc @ ls" for ls acc :: "'a list"
    by (induction ls arbitrary: acc) simp_all
  then show ?thesis by (simp add: build_stack_def)
qed

lemma build_queue_eq: "build_queue lines = lines"
proof -
  have "fold (\<lambda>line queue. queue @ [line]) ls acc = acc @ ls" for ls acc :: "'a list"
    by (induction ls arbitrary: acc) simp_all
  then show ?thesis by (simp add: build_queue_def)
qed

lemma probe_out_of_range: "length container < pos \<Longrightarrow> probe container pos = Inr (Out_Of_Range pos)"
  by (simp add: probe_def)

lemma probe_in_range:
  assumes "1 \<le> pos" "pos \<le> length container"
  shows "probe container pos = Inr (Element pos (container ! (pos - 1)))"
proof -
  obtain k where k: "pos = Suc k" using assms(1) by (cases pos) auto
  have "int pos - 1 = int k" by (simp add: k)
  moreover have "getitem container (int k) = Inr (container ! k)"
    using assms(2) k by (intro getitem_nat) simp
  ultimately have "getitem container (int pos - 1) = Inr (container ! k)" by (simp only:)
  then show ?thesis using assms(2) by (simp add: probe_def k del: of_nat_Suc)
qed

lemma retrieve_Nil: "retrieve container [] = Inr []"
  by (simp add: retrieve_def)

lemma for_loop_collect:
  fixes g :: "'i \<Rightarrow> error + 'n"
  defines "B \<equiv> (\<lambda>x out. ebind (g x) (\<lambda>n. Inr (out @ [n])))"
  shows "for_loop ps B acc =
     (case for_loop ps B [] of Inl e \<Rightarrow> Inl e | Inr out \<Rightarrow> Inr (acc @ out))"
proof (induction ps arbitrary: acc)
  case Nil
  show ?case by simp
next
  case (Cons p ps)
  show ?case
  proof (cases "g p")
    case (Inl e)
    then have "B p a = Inl e" for a by (simp add: B_def)
    then show ?thesis by simp
  next
    case (Inr n)
    then have b: "B p a = Inr (a @ [n])" for a by (simp add: B_def)
    have "for_loop (p # ps) B acc = for_loop ps B (acc @ [n])" by (simp add: b)
    also have "\<dots> = (case for_loop ps B [] of Inl e \<Rightarrow> Inl e | Inr out \<Rightarrow> Inr ((acc @ [n]) @ out))"
      by (rule Cons.IH)
    finally have L: "for_loop (p # ps) B acc =
      (case for_loop ps B [] of Inl e \<Rightarrow> Inl e | Inr out \<Rightarrow> Inr ((acc @ [n]) @ out))" .
    have "for_loop (p # ps) B [] = for_loop ps B [n]" by (simp add: b)
    also have "\<dots> = (case for_loop ps B [] of Inl e \<Rightarrow> Inl e | Inr out \<Rightarrow> Inr ([n] @ out))"
      by (rule Cons.IH)
    finally have R: "for_loop (p # ps) B [] =
      (case for_loop ps B [] of Inl e \<Rightarrow> Inl e | Inr out \<Rightarrow> Inr ([n] @ out))" .
    show ?thesis unfolding L R by (cases "for_loop ps B []") simp_all
  qed
qed

lemma retrieve_Cons:
  "retrieve c (p # ps) =
     ebind (probe c p) (\<lambda>n. ebind (retrieve c ps) (\<lambda>out. Inr (n # out)))"
proof (cases "probe c p")
  case (Inl e)
  then show ?thesis by (simp add: retrieve_def)
next
  case (Inr n)
  have "retrieve c (p # ps) =
      for_loop ps (\<lambda>pos out. ebind (probe c pos) (\<lambda>n. Inr (out @ [n]))) [n]"
    by (simp add: retrieve_def Inr)
  also have "\<dots> = (case retrieve c ps of Inl e \<Rightarrow> Inl e | Inr out \<Rightarrow> Inr ([n] @ out))"
    unfolding retrieve_def by (rule for_loop_collect)
  finally show ?thesis by (cases "retrieve c ps") (simp_all add: Inr)
qed

subsection \<open>The keys and tags of the map\<close>

lemma dict_keys_dict_set:
  "dict_keys (dict_set d k v) =
     (if k \<in> set (dict_keys d) then dict_keys d else dict_keys d @ [k])"
  by (induction d k v rule: dict_set.induct) (auto simp: dict_keys_def)

lemma map_of_dict_set: "map_of (dict_set d k v) = (map_of d)(k \<mapsto> v)"
  by (induction d k v rule: dict_set.induct) (auto simp: fun_eq_iff)

lemma build_hashtable_snoc:
  "build_hashtable (ls @ [x]) = dict_set (build_hashtable ls) x (int (length ls))"
  by (simp add: build_hashtable_def enumerate_append_eq)

lemma set_first_occurrences: "set (first_occurrences ls) = set ls"
  by (induction ls rule: first_occurrences.induct) auto

lemma distinct_first_occurrences: "distinct (first_occurrences ls)"
  by (induction ls rule: first_occurrences.induct) (auto simp: set_first_occurrences)

lemma first_occurrences_snoc:
  "first_occurrences (ls @ [x]) =
     (if x \<in> set ls then first_occurrences ls else first_occurrences ls @ [x])"
proof (induction ls rule: first_occurrences.induct)
  case 1
  show ?case by simp
next
  case (2 y ys)
  show ?case
  proof (cases "x = y")
    case True
    then show ?thesis by simp
  next
    case False
    then have "removeAll y (ys @ [x]) = removeAll y ys @ [x]" by simp
    with 2 False show ?thesis by simp
  qed
qed

lemma dict_keys_build_hashtable: "dict_keys (build_hashtable ls) = first_occurrences ls"
proof (induction ls rule: rev_induct)
  case Nil
  show ?case by (simp add: build_hashtable_def dict_keys_def)
next
  case (snoc x ls)
  then show ?case
    by (simp add: build_hashtable_snoc dict_keys_dict_set first_occurrences_snoc
        set_first_occurrences)
qed

lemma map_of_build_hashtable_last:
  assumes "i < length ls" and "\<forall>j. i < j \<and> j < length ls \<longrightarrow> ls ! j \<noteq> ls ! i"
  shows "map_of (build_hashtable ls) (ls ! i) = Some (int i)"
  using assms
proof (induction ls rule: rev_induct)
  case Nil
  then show ?case by simp
next
  case (snoc x ls)
  show ?case
  proof (cases "i = length ls")
    case True
    then show ?thesis by (simp add: build_hashtable_snoc map_of_dict_set)
  next
    case False
    with snoc.prems(1) have i: "i < length ls" by simp
    have ne: "x \<noteq> ls ! i"
      using snoc.prems(2) [rule_format, of "length ls"] i by (simp add: nth_append)
    have later: "\<forall>j. i < j \<and> j < length ls \<longrightarrow> ls ! j \<noteq> ls ! i"
    proof (intro allI impI)
      fix j assume j: "i < j \<and> j < length ls"
      with snoc.prems(2) [rule_format, of j] i show "ls ! j \<noteq> ls ! i"
        by (simp add: nth_append)
    qed
    from snoc.IH [OF i later] ne i show ?thesis
      by (simp add: build_hashtable_snoc map_of_dict_set nth_append)
  qed
qed

lemma length_first_occurrences: "length (first_occurrences ls) = card (set ls)"
  using distinct_card [OF distinct_first_occurrences, of ls] by (simp add: set_first_occurrences)

lemma fewer_keys_when_duplicates:
  assumes "\<not> distinct ls"
  shows "length (dict_keys (build_hashtable ls)) < length ls"
proof -
  have "card (set ls) \<le> length ls" by (rule card_length)
  moreover have "card (set ls) \<noteq> length ls" using assms card_distinct by blast
  ultimately show ?thesis
    by (simp add: dict_keys_build_hashtable length_first_occurrences)
qed

subsection \<open>Bulk removal\<close>

lemma for_loop_const:
  assumes "\<And>s. body s = Inr (g s)"
  shows "for_loop xs (\<lambda>_. body) s = Inr ((g ^^ length xs) s)"
  by (induction xs arbitrary: s) (simp_all add: assms funpow_swap1)

lemma funpow_butlast: "(butlast ^^ k) s = take (length s - k) s"
proof (induction k)
  case 0
  show ?case by simp
next
  case (Suc k)
  have "butlast (take (length s - k) s) = take (length s - k - 1) s"
    by (simp add: butlast_take)
  with Suc show ?case by simp
qed

lemma funpow_tl: "(tl ^^ k) s = drop k s"
  by (induction k) (simp_all add: drop_Suc tl_drop)

lemma remove_from_stack_eq: "remove_from_stack stack = Inr (take (length stack - 10) stack)"
proof -
  have "(if s \<noteq> [] then list_pop s else Inr s) = Inr (butlast s)" for s :: "'a list"
    by (simp add: list_pop_def)
  then have "remove_from_stack stack = Inr ((butlast ^^ length [0..<10]) stack)"
    unfolding remove_from_stack_def by (rule for_loop_const)
  then show ?thesis by (simp add: funpow_butlast)
qed

lemma remove_from_queue_eq: "remove_from_queue queue = Inr (drop 10 queue)"
proof -
  have "(if s \<noteq> [] then deque_popleft s else Inr s) = Inr (tl s)" for s :: "'a list"
    by (simp add: deque_popleft_def)
  then have "remove_from_queue queue = Inr ((tl ^^ length [0..<10]) queue)"
    unfolding remove_from_queue_def by (rule for_loop_const)
  then show ?thesis by (simp add: funpow_tl)
qed

lemma guarded_del_eq:
  "(if dict_contains h key then dict_del h key else Inr h) = Inr (filter (\<lambda>p. fst p \<noteq> key) h)"
proof (cases "dict_contains h key")
  case True
  then show ?thesis by (simp add: dict_del_def case_prod_unfold)
next
  case False
  then have "\<forall>p \<in> set h. fst p \<noteq> key" by (auto simp: dict_contains_def dict_keys_def)
  then have "filter (\<lambda>p. fst p \<noteq> key) h = h" by (simp add: filter_id_conv)
  with False show ?thesis by simp
qed

lemma for_loop_guarded_del:
  "for_loop ks (\<lambda>key h. if dict_contains h key then dict_del h key else Inr h) h =
     Inr (filter (\<lambda>p. fst p \<notin> set ks) h)"
proof -
  define B :: "'a \<Rightarrow> ('a \<times> 'b) list \<Rightarrow> error + ('a \<times> 'b) list"
    where "B = (\<lambda>key h. if dict_contains h key then dict_del h key else Inr h)"
  have B: "B key h = Inr (filter (\<lambda>p. fst p \<noteq> key) h)" for key h
    unfolding B_def by (rule guarded_del_eq)
  have "for_loop ks B h = Inr (filter (\<lambda>p. fst p \<notin> set ks) h)"
  proof (induction ks arbitrary: h)
    case Nil
    show ?case by simp
  next
    case (Cons k ks)
    have "for_loop (k # ks) B h = for_loop ks B (filter (\<lambda>p. fst p \<noteq> k) h)"
      by (simp only: for_loop.simps B sum.case)
    also have "\<dots> = Inr (filter (\<lambda>p. fst p \<notin> set ks) (filter (\<lambda>p. fst p \<noteq> k) h))"
      by (rule Cons.IH)
    also have "\<dots> = Inr (filter (\<lambda>p. fst p \<notin> set (k # ks)) h)"
      by (simp add: conj_commute)
    finally show ?case .
  qed
  then show ?thesis unfolding B_def .
qed

lemma remove_from_hashtable_eq:
  "remove_from_hashtable keys h = Inr (filter (\<lambda>p. fst p \<notin> set (take 10 keys)) h)"
  by (simp add: remove_from_hashtable_def for_loop_guarded_del)

text \<open>
  On an empty listing the fifth probe position is \<open>N = 0\<close>, which passes the test
  \<^verbatim>\<open>pos <= len(stack)\<close>; the read \<^verbatim>\<open>stack[-1]\<close> of the empty list raises.
\<close>

lemma retrieve_empty_listing: "retrieve [] (positions []) = Inl IndexError"
  by (simp add: retrieve_Cons positions_def probe_def getitem_def)

text \<open>
  Claim C5. For every container (the stack, the snapshot of the queue, the key list of the
  map) and every probe position that exceeds the container's current size, the probe
  reports an out-of-range notice instead of an element and raises nothing; for a listing
  that is not empty the loop over the five positions \<open>{1, 100, 1000, 5000, N}\<close> runs to
  its end and prints five notices, an out-of-range notice at each position beyond the
  size. Probing a 4-element stack yields an element at positions 1 and \<open>N = 4\<close> only;
  positions 100, 1000 and 5000 are reported out of range.
\<close>

theorem probe_beyond_size_reports_out_of_range:
  "(\<forall>pos. length container < pos \<longrightarrow> probe container pos = Inr (Out_Of_Range pos)) \<and>
   (lines \<noteq> [] \<longrightarrow> (\<exists>out. retrieve container (positions lines) = Inr out \<and> length out = 5 \<and>
      (\<forall>i < 5. length container < positions lines ! i \<longrightarrow>
         out ! i = Out_Of_Range (positions lines ! i)))) \<and>
   (length lines = 4 \<longrightarrow>
      retrieve (build_stack lines) (positions lines) =
        Inr [Element 1 (lines ! 0), Out_Of_Range 100, Out_Of_Range 1000, Out_Of_Range 5000,
             Element 4 (lines ! 3)])"
proof (intro conjI allI impI)
  fix pos assume "length container < pos"
  then show "probe container pos = Inr (Out_Of_Range pos)" by (rule probe_out_of_range)
next
  assume ne: "lines \<noteq> []"
  define N where "N = length lines"
  have N: "1 \<le> N" using ne by (cases lines) (auto simp: N_def)
  have pr: "\<exists>n. probe container p = Inr n \<and> (length container < p \<longrightarrow> n = Out_Of_Range p)"
    if "1 \<le> p" for p
  proof (cases "p \<le> length container")
    case True
    with that show ?thesis by (simp add: probe_in_range)
  next
    case False
    then show ?thesis by (simp add: probe_out_of_range)
  qed
  obtain n1 where n1: "probe container (Suc 0) = Inr n1"
    "length container < Suc 0 \<longrightarrow> n1 = Out_Of_Range (Suc 0)"
    using pr [of "Suc 0"] by auto
  obtain n2 where n2: "probe container 100 = Inr n2" "length container < 100 \<longrightarrow> n2 = Out_Of_Range 100"
    using pr [of 100] by auto
  obtain n3 where n3: "probe container 1000 = Inr n3" "length container < 1000 \<longrightarrow> n3 = Out_Of_Range 1000"
    using pr [of 1000] by auto
  obtain n4 where n4: "probe container 5000 = Inr n4" "length container < 5000 \<longrightarrow> n4 = Out_Of_Range 5000"
    using pr [of 5000] by auto
  obtain n5 where n5: "probe container N = Inr n5" "length container < N \<longrightarrow> n5 = Out_Of_Range N"
    using pr [OF N] by auto
  have r: "retrieve container (positions lines) = Inr [n1, n2, n3, n4, n5]"
    by (simp add: positions_def retrieve_Cons retrieve_Nil n1 n2 n3 n4 n5 N_def [symmetric])
  have "\<forall>i < 5. length container < positions lines ! i \<longrightarrow>
      [n1, n2, n3, n4, n5] ! i = Out_Of_Range (positions lines ! i)"
  proof (intro allI impI)
    fix i :: nat assume i: "i < 5" and lt: "length container < positions lines ! i"
    from i consider "i = 0" | "i = 1" | "i = 2" | "i = 3" | "i = 4" by linarith
    then show "[n1, n2, n3, n4, n5] ! i = Out_Of_Range (positions lines ! i)"
      using lt n1(2) n2(2) n3(2) n4(2) n5(2)
      by cases (simp_all add: positions_def N_def)
  qed
  with r show "\<exists>out. retrieve container (positions lines) = Inr out \<and> length out = 5 \<and>
      (\<forall>i < 5. length container < positions lines ! i \<longrightarrow>
         out ! i = Out_Of_Range (positions lines ! i))"
    by simp
next
  assume len: "length lines = 4"
  have p1: "probe lines (Suc 0) = Inr (Element (Suc 0) (lines ! 0))"
    using probe_in_range [of "Suc 0" lines] len by simp
  have p4: "probe lines 4 = Inr (Element 4 (lines ! 3))"
    using probe_in_range [of 4 lines] len by simp
  show "retrieve (build_stack lines) (positions lines) =
        Inr [Element 1 (lines ! 0), Out_Of_Range 100, Out_Of_Range 1000, Out_Of_Range 5000,
             Element 4 (lines ! 3)]"
    by (simp add: build_stack_eq positions_def retrieve_Cons retrieve_Nil p1 p4 len
        probe_out_of_range)
qed

text \<open>The theorem at the stack of the listing \<^verbatim>\<open>["a", "b", "c", "d"]\<close>.\<close>

theorem probe_beyond_size_reports_out_of_range_witness:
  "length [''a'', ''b'', ''c'', ''d''] < (100::nat) \<and>
   probe [''a'', ''b'', ''c'', ''d''] 100 = Inr (Out_Of_Range 100) \<and>
   [''a'', ''b'', ''c'', ''d''] \<noteq> [] \<and>
   (\<exists>out. retrieve [''a'', ''b'', ''c'', ''d''] (positions [''a'', ''b'', ''c'', ''d'']) = Inr out \<and>
      length out = 5 \<and> (1::nat) < 5 \<and>
      length [''a'', ''b'', ''c'', ''d''] < positions [''a'', ''b'', ''c'', ''d''] ! 1 \<and>
      out ! 1 = Out_Of_Range (positions [''a'', ''b'', ''c'', ''d''] ! 1)) \<and>
   length [''a'', ''b'', ''c'', ''d''] = 4 \<and>
   retrieve (build_stack [''a'', ''b'', ''c'', ''d'']) (positions [''a'', ''b'', ''c'', ''d'']) =
     Inr [Element 1 ''a'', Out_Of_Range 100, Out_Of_Range 1000, Out_Of_Range 5000, Element 4 ''d'']"
proof -
  define L :: "string list" where "L = [''a'', ''b'', ''c'', ''d'']"
  have len: "length L = 4" by (simp add: L_def)
  have ne: "L \<noteq> []" by (simp add: L_def)
  have el: "L ! 0 = ''a''" "L ! 3 = ''d''" by (simp_all add: L_def)
  have pos1: "positions L ! 1 = 100" by (simp add: positions_def)
  note T = probe_beyond_size_reports_out_of_range [of L L]
  have a: "length L < (100::nat)" using len by simp
  from T a have b: "probe L 100 = Inr (Out_Of_Range 100)" by blast
  from T ne obtain out where out: "retrieve L (positions L) = Inr out" "length out = 5"
    "\<forall>i < 5. length L < positions L ! i \<longrightarrow> out ! i = Out_Of_Range (positions L ! i)"
    by blast
  have c1: "length L < positions L ! 1" using len pos1 by simp
  with out(3) have c2: "out ! 1 = Out_Of_Range (positions L ! 1)" by simp
  have c: "\<exists>out. retrieve L (positions L) = Inr out \<and> length out = 5 \<and> (1::nat) < 5 \<and>
      length L < positions L ! 1 \<and> out ! 1 = Out_Of_Range (positions L ! 1)"
    using out(1,2) c1 c2 by simp
  from T len have "retrieve (build_stack L) (positions L) =
      Inr [Element 1 (L ! 0), Out_Of_Range 100, Out_Of_Range 1000, Out_Of_Range 5000, Element 4 (L ! 3)]"
    by blast
  then have d: "retrieve (build_stack L) (positions L) =
      Inr [Element 1 ''a'', Out_Of_Range 100, Out_Of_Range 1000, Out_Of_Range 5000, Element 4 ''d'']"
    by (simp only: el)
  from a b ne c len d show ?thesis unfolding L_def by (intro conjI)
qed

text \<open>
  Claim C6. Bulk removal is guarded per element: it never raises; it removes the last ten
  elements of the stack and the first ten of the queue, or all of them when there are
  fewer. A stack, a queue or a map that holds fewer than 10 elements is empty afterwards,
  and so are the three containers built from a listing of fewer than 10 records.
\<close>

theorem bulk_removal_guarded:
  "remove_from_stack stack = Inr (take (length stack - 10) stack) \<and>
   remove_from_queue queue = Inr (drop 10 queue) \<and>
   (length stack < 10 \<longrightarrow> remove_from_stack stack = Inr []) \<and>
   (length queue < 10 \<longrightarrow> remove_from_queue queue = Inr []) \<and>
   (length (dict_keys hashtable) < 10 \<longrightarrow>
      remove_from_hashtable (dict_keys hashtable) hashtable = Inr []) \<and>
   (length lines < 10 \<longrightarrow>
      remove_from_stack (build_stack lines) = Inr [] \<and>
      remove_from_queue (build_queue lines) = Inr [] \<and>
      remove_from_hashtable (dict_keys (build_hashtable lines)) (build_hashtable lines) = Inr [])"
proof -
  have h: "remove_from_hashtable (dict_keys h) h = Inr []" if "length (dict_keys h) < 10"
    for h :: "('k \<times> 'v) list"
  proof -
    from that have "take 10 (dict_keys h) = dict_keys h" by simp
    then have "filter (\<lambda>p. fst p \<notin> set (take 10 (dict_keys h))) h = []"
      by (simp add: dict_keys_def filter_empty_conv)
    then show ?thesis by (simp add: remove_from_hashtable_eq)
  qed
  have k: "length (dict_keys (build_hashtable lines)) \<le> length lines"
    by (simp add: dict_keys_build_hashtable length_first_occurrences card_length)
  show ?thesis
    using h [of hashtable] h [of "build_hashtable lines"] k
    by (simp add: remove_from_stack_eq remove_from_queue_eq build_stack_eq build_queue_eq)
qed

text \<open>The theorem at the containers of the listing \<^verbatim>\<open>["a", "b", "a"]\<close>.\<close>

theorem bulk_removal_guarded_witness:
  "length [''a'', ''b'', ''a''] < (10::nat) \<and>
   remove_from_stack [''a'', ''b'', ''a''] = Inr [] \<and>
   remove_from_queue [''a'', ''b'', ''a''] = Inr [] \<and>
   length (dict_keys [(''a'', 2::int), (''b'', 1)]) < 10 \<and>
   remove_from_hashtable (dict_keys [(''a'', 2::int), (''b'', 1)]) [(''a'', 2::int), (''b'', 1)] = Inr [] \<and>
   remove_from_stack (build_stack [''a'', ''b'', ''a'']) = Inr [] \<and>
   remove_from_queue (build_queue [''a'', ''b'', ''a'']) = Inr [] \<and>
   remove_from_hashtable (dict_keys (build_hashtable [''a'', ''b'', ''a'']))
     (build_hashtable [''a'', ''b'', ''a'']) = Inr []"
proof -
  define L :: "string list" where "L = [''a'', ''b'', ''a'']"
  define H :: "(string \<times> int) list" where "H = [(''a'', 2), (''b'', 1)]"
  have len: "length L < 10" by (simp add: L_def)
  have lenH: "length (dict_keys H) < 10" by (simp add: H_def dict_keys_def)
  note T = bulk_removal_guarded [of L L H L]
  from T len have 1: "remove_from_stack L = Inr []" by blast
  from T len have 2: "remove_from_queue L = Inr []" by blast
  from T lenH have 3: "remove_from_hashtable (dict_keys H) H = Inr []" by blast
  from T len have 4: "remove_from_stack (build_stack L) = Inr []"
    "remove_from_queue (build_queue L) = Inr []"
    "remove_from_hashtable (dict_keys (build_hashtable L)) (build_hashtable L) = Inr []"
    by blast+
  from len 1 2 lenH 3 4 show ?thesis unfolding L_def H_def by (intro conjI)
qed

text \<open>
  Claim C7. After the construction of the map from the listing, the keys of the map, in
  iteration order, are the distinct records of the listing in the order of their first
  occurrence: every record of the listing is a key and no key occurs twice. The tag of a
  record is the load index of its last occurrence (the last write wins).
\<close>

theorem map_keys_are_first_occurrences_tag_is_last_index:
  "dict_keys (build_hashtable lines) = first_occurrences lines \<and>
   distinct (dict_keys (build_hashtable lines)) \<and>
   set (dict_keys (build_hashtable lines)) = set lines \<and>
   (\<forall>i. i < length lines \<and> (\<forall>j. i < j \<and> j < length lines \<longrightarrow> lines ! j \<noteq> lines ! i) \<longrightarrow>
      map_of (build_hashtable lines) (lines ! i) = Some (int i))"
  by (simp add: dict_keys_build_hashtable distinct_first_occurrences set_first_occurrences
      map_of_build_hashtable_last)

text \<open>
  The theorem at the listing \<^verbatim>\<open>["a", "b", "a"]\<close>: the keys are \<^verbatim>\<open>"a", "b"\<close>, the tag of
  \<^verbatim>\<open>"b"\<close> is 1 and the tag of \<^verbatim>\<open>"a"\<close> is 2.
\<close>

theorem map_keys_are_first_occurrences_tag_is_last_index_witness:
  "dict_keys (build_hashtable [''a'', ''b'', ''a'']) = [''a'', ''b''] \<and>
   (1::nat) < length [''a'', ''b'', ''a''] \<and>
   map_of (build_hashtable [''a'', ''b'', ''a'']) ([''a'', ''b'', ''a''] ! 1) = Some 1 \<and>
   (2::nat) < length [''a'', ''b'', ''a''] \<and>
   map_of (build_hashtable [''a'', ''b'', ''a'']) ([''a'', ''b'', ''a''] ! 2) = Some 2"
proof -
  define L :: "string list" where "L = [''a'', ''b'', ''a'']"
  note T = map_keys_are_first_occurrences_tag_is_last_index [of L]
  have fo: "first_occurrences L = [''a'', ''b'']" by (simp add: L_def)
  from T fo have keys: "dict_keys (build_hashtable L) = [''a'', ''b'']" by simp
  have len: "length L = 3" by (simp add: L_def)
  have l1: "\<forall>j. 1 < j \<and> j < length L \<longrightarrow> L ! j \<noteq> L ! 1"
  proof (intro allI impI)
    fix j assume "1 < j \<and> j < length L"
    with len have "j = 2" by simp
    then show "L ! j \<noteq> L ! 1" by (simp add: L_def)
  qed
  have l2: "\<forall>j. 2 < j \<and> j < length L \<longrightarrow> L ! j \<noteq> L ! 2"
  proof (intro allI impI)
    fix j :: nat assume "2 < j \<and> j < length L"
    with len have False by linarith
    then show "L ! j \<noteq> L ! 2" ..
  qed
  have i1: "(1::nat) < length L" and i2: "(2::nat) < length L" using len by simp_all
  from T i1 l1 have t1: "map_of (build_hashtable L) (L ! 1) = Some (int 1)" by blast
  from T i2 l2 have t2: "map_of (build_hashtable L) (L ! 2) = Some (int 2)" by blast
  from keys i1 t1 i2 t2 show ?thesis unfolding L_def by simp
qed

text \<open>
  Claim C10. For every listing with at least one duplicate record, the map holds strictly
  fewer than \<open>N\<close> keys (\<open>N\<close> the length of the listing), so the probe at position \<open>N\<close>
  against the key list of the map reports an out-of-range notice, while the same probe
  against the stack and against the queue finds an element, the last record.
\<close>

theorem duplicate_listing_map_probe_at_N_out_of_range:
  assumes "\<not> distinct lines"
  shows "length (dict_keys (build_hashtable lines)) < length lines \<and>
         probe (dict_keys (build_hashtable lines)) (length lines) = Inr (Out_Of_Range (length lines)) \<and>
         probe (build_stack lines) (length lines) = Inr (Element (length lines) (last lines)) \<and>
         probe (build_queue lines) (length lines) = Inr (Element (length lines) (last lines))"
proof -
  have fewer: "length (dict_keys (build_hashtable lines)) < length lines"
    using assms by (rule fewer_keys_when_duplicates)
  from assms have ne: "lines \<noteq> []" by auto
  then have N: "1 \<le> length lines" by (cases lines) auto
  have "probe lines (length lines) = Inr (Element (length lines) (lines ! (length lines - 1)))"
    using N by (intro probe_in_range) simp_all
  then have el: "probe lines (length lines) = Inr (Element (length lines) (last lines))"
    using ne by (simp add: last_conv_nth)
  from fewer el show ?thesis
    by (simp add: probe_out_of_range build_stack_eq build_queue_eq)
qed

text \<open>The theorem at the listing \<^verbatim>\<open>["a", "b", "a"]\<close>, where \<open>N = 3\<close>.\<close>

theorem duplicate_listing_map_probe_at_N_out_of_range_witness:
  "\<not> distinct [''a'', ''b'', ''a''] \<and>
   length (dict_keys (build_hashtable [''a'', ''b'', ''a''])) < length [''a'', ''b'', ''a''] \<and>
   probe (dict_keys (build_hashtable [''a'', ''b'', ''a''])) (length [''a'', ''b'', ''a'']) =
     Inr (Out_Of_Range 3) \<and>
   probe (build_stack [''a'', ''b'', ''a'']) (length [''a'', ''b'', ''a'']) = Inr (Element 3 ''a'') \<and>
   probe (build_queue [''a'', ''b'', ''a'']) (length [''a'', ''b'', ''a'']) = Inr (Element 3 ''a'')"
proof -
  define L :: "string list" where "L = [''a'', ''b'', ''a'']"
  have dup: "\<not> distinct L" by (simp add: L_def)
  have len: "length L = 3" and lst: "last L = ''a''" by (simp_all add: L_def)
  note T = duplicate_listing_map_probe_at_N_out_of_range [OF dup]
  from T have "length (dict_keys (build_hashtable L)) < length L"
    "probe (dict_keys (build_hashtable L)) (length L) = Inr (Out_Of_Range 3)"
    "probe (build_stack L) (length L) = Inr (Element 3 ''a'')"
    "probe (build_queue L) (length L) = Inr (Element 3 ''a'')"
    by (simp_all only: len lst)
  with dup show ?thesis unfolding L_def by (intro conjI)
qed

section \<open>The loop structure of bubble sort\<close>

lemma replay_append:
  "replay (l1 @ l2) arr = (case replay l1 arr of None \<Rightarrow> None | Some a \<Rightarrow> replay l2 a)"
  by (induction l1 arr rule: replay.induct) auto

lemma bubble_step_traced_eq:
  assumes "Suc j < length arr"
  shows "bubble_step_traced j (arr, log) =
     Inr (if arr ! j > arr ! Suc j then arr[j := arr ! Suc j, Suc j := arr ! j] else arr,
          log @ [Step j (Suc j) (arr ! j) (arr ! Suc j) (arr ! Suc j < arr ! j)])"
  using assms by (simp add: bubble_step_traced_def swap_items_Suc)

lemma bubble_pass_traced_spec:
  fixes arr :: "'a::linorder list"
  assumes len: "length arr = n" and i: "i < n"
  shows "\<exists>arr' evs. bubble_pass_traced n i (arr, log) = Inr (arr', log @ Pass i # evs) \<and>
           bubble_pass n i arr = Inr arr' \<and> length arr' = n \<and>
           map outline evs = map (\<lambda>j. Inr (j, j + 1)) [0..<n - i - 1] \<and>
           replay evs arr = Some arr'"
proof -
  define m where "m = n - i - 1"
  have m: "m < n" using i by (simp add: m_def)
  define I where "I = (\<lambda>j (s :: 'a list \<times> 'a event list).
      \<exists>evs. snd s = log @ Pass i # evs \<and> length (fst s) = n \<and>
        for_loop [0..<j] bubble_step arr = Inr (fst s) \<and>
        map outline evs = map (\<lambda>j. Inr (j, j + 1)) [0..<j] \<and>
        replay evs arr = Some (fst s))"
  have init: "I 0 (arr, log @ [Pass i])" using len by (simp add: I_def)
  have step: "\<exists>t'. bubble_step_traced k t = Inr t' \<and> I (Suc k) t'" if k: "k < m" and Ik: "I k t" for k t
  proof -
    obtain a l where t: "t = (a, l)" by (cases t)
    from Ik t obtain evs where evs: "l = log @ Pass i # evs" "length a = n"
      "for_loop [0..<k] bubble_step arr = Inr a"
      "map outline evs = map (\<lambda>j. Inr (j, j + 1)) [0..<k]" "replay evs arr = Some a"
      by (auto simp: I_def)
    from k m evs(2) have lt: "Suc k < length a" by simp
    let ?a' = "if a ! k > a ! Suc k then a[k := a ! Suc k, Suc k := a ! k] else a"
    let ?ev = "Step k (Suc k) (a ! k) (a ! Suc k) (a ! Suc k < a ! k)"
    have tr: "bubble_step_traced k t = Inr (?a', l @ [?ev])"
      unfolding t by (rule bubble_step_traced_eq [OF lt])
    have un: "for_loop [0..<Suc k] bubble_step arr = Inr ?a'"
      using evs(3) lt by (simp add: for_loop_append bubble_step_eq)
    have ol: "map outline (evs @ [?ev]) = map (\<lambda>j. Inr (j, j + 1)) [0..<Suc k]"
      using evs(4) by simp
    have rp: "replay (evs @ [?ev]) arr = Some ?a'"
      using evs(5) lt by (simp add: replay_append)
    have "I (Suc k) (?a', l @ [?ev])"
      unfolding I_def using evs(1,2) un ol rp
      by (intro exI [of _ "evs @ [?ev]"]) simp
    with tr show ?thesis by blast
  qed
  have "\<exists>s'. for_loop [0..<m] bubble_step_traced (arr, log @ [Pass i]) = Inr s' \<and> I m s'"
  proof (rule for_loop_upt_rule [where I = I, OF init])
    show "0 \<le> m" by simp
    show "\<exists>t'. bubble_step_traced k t = Inr t' \<and> I (Suc k) t'" if "0 \<le> k" "k < m" "I k t" for k t
      using that(2,3) by (rule step)
  qed
  then obtain a l where r: "for_loop [0..<m] bubble_step_traced (arr, log @ [Pass i]) = Inr (a, l)"
    "I m (a, l)" by auto
  from r(2) obtain evs where evs: "l = log @ Pass i # evs" "length a = n"
      "for_loop [0..<m] bubble_step arr = Inr a"
      "map outline evs = map (\<lambda>j. Inr (j, j + 1)) [0..<m]" "replay evs arr = Some a"
    by (auto simp: I_def)
  show ?thesis
    using r(1) evs unfolding bubble_pass_traced_def bubble_pass_def m_def [symmetric]
    by (intro exI [of _ a] exI [of _ evs]) simp
qed

lemma replay_steps:
  "replay l a = Some a' \<Longrightarrow> Step j k x y b \<in> set l \<Longrightarrow> k = j + 1 \<and> b = (y < x)"
  by (induction l a rule: replay.induct) (auto split: if_splits)

lemma passes_of_outline:
  "map outline l = concat (map (\<lambda>i. Inl i # map (\<lambda>j. Inr (j, j + 1)) [0..<f i]) [0..<m]) \<Longrightarrow>
   [i. Pass i \<leftarrow> l] = [0..<m]"
proof (induction m arbitrary: l)
  case 0
  then show ?case by simp
next
  case (Suc m)
  let ?pre = "concat (map (\<lambda>i. Inl i # map (\<lambda>j. Inr (j, j + 1)) [0..<f i]) [0..<m])"
  let ?last = "Inl m # map (\<lambda>j. Inr (j, j + 1)) [0..<f m]"
  from Suc.prems have eq: "map outline l = ?pre @ ?last" by simp
  then obtain l1 l2 where l: "l = l1 @ l2" "map outline l1 = ?pre" "map outline l2 = ?last"
    by (auto simp: map_eq_append_conv)
  from l(3) obtain e l3 where l2: "l2 = e # l3" "outline e = Inl m"
    "map outline l3 = map (\<lambda>j. Inr (j, j + 1)) [0..<f m]"
    by (auto simp: map_eq_Cons_conv)
  from l2(2) have e: "e = Pass m" by (cases e) auto
  have "\<forall>e \<in> set l3. \<exists>j k. outline e = Inr (j, k)"
  proof
    fix e assume "e \<in> set l3"
    then have "outline e \<in> set (map outline l3)" by simp
    then show "\<exists>j k. outline e = Inr (j, k)" unfolding l2(3) by auto
  qed
  then have "[i. Pass i \<leftarrow> l3] = []"
    by (induction l3) (auto split: event.splits)
  with Suc.IH [OF l(2)] show ?case by (simp add: l(1) l2(1) e)
qed

lemma bubble_sort_traced_spec:
  fixes data :: "'a::linorder list"
  shows "\<exists>arr log. bubble_sort_traced data = Inr (arr, log) \<and> bubble_sort data = Inr arr \<and>
           map outline log = schedule (length data) \<and> replay log data = Some arr"
proof -
  define n where "n = length data"
  let ?sched = "\<lambda>i. concat (map (\<lambda>i. Inl i # map (\<lambda>j. Inr (j, j + 1)) [0..<n - i - 1]) [0..<i])"
  define J where "J = (\<lambda>i (s :: 'a list \<times> 'a event list).
      length (fst s) = n \<and> for_loop [0..<i] (bubble_pass n) data = Inr (fst s) \<and>
      map outline (snd s) = ?sched i \<and> replay (snd s) data = Some (fst s))"
  have init: "J 0 (data, [])" by (simp add: J_def n_def)
  have step: "\<exists>t'. bubble_pass_traced n i t = Inr t' \<and> J (Suc i) t'" if i: "i < n" and Ji: "J i t" for i t
  proof -
    obtain a l where t: "t = (a, l)" by (cases t)
    from Ji t have a: "length a = n" "for_loop [0..<i] (bubble_pass n) data = Inr a"
      "map outline l = ?sched i" "replay l data = Some a"
      by (auto simp: J_def)
    from bubble_pass_traced_spec [OF a(1) i, of l] obtain a' evs where p:
      "bubble_pass_traced n i (a, l) = Inr (a', l @ Pass i # evs)"
      "bubble_pass n i a = Inr a'" "length a' = n"
      "map outline evs = map (\<lambda>j. Inr (j, j + 1)) [0..<n - i - 1]"
      "replay evs a = Some a'"
      by blast
    have "J (Suc i) (a', l @ Pass i # evs)"
      unfolding J_def using a p by (simp add: for_loop_append replay_append)
    with p(1) t show ?thesis by blast
  qed
  have "\<exists>s'. for_loop [0..<n] (bubble_pass_traced n) (data, []) = Inr s' \<and> J n s'"
  proof (rule for_loop_upt_rule [where I = J, OF init])
    show "0 \<le> n" by simp
    show "\<exists>t'. bubble_pass_traced n k t = Inr t' \<and> J (Suc k) t'" if "0 \<le> k" "k < n" "J k t" for k t
      using that(2,3) by (rule step)
  qed
  then obtain a l where "for_loop [0..<n] (bubble_pass_traced n) (data, []) = Inr (a, l)" "J n (a, l)"
    by auto
  then show ?thesis
    unfolding bubble_sort_traced_def bubble_sort_def schedule_def J_def Let_def n_def [symmetric]
    by (intro exI [of _ a] exI [of _ l]) simp
qed

text \<open>
  Claim C3. \<open>bubble_sort\<close> follows the classic loop structure. For an input of length
  \<open>n\<close> the run with a log returns the list that \<open>bubble_sort\<close> returns, and its log is
  the classic schedule: exactly \<open>n\<close> passes \<open>0, \<dots>, n - 1\<close> whatever the input (no early
  exit on a pass without a swap), and on pass \<open>i\<close> one step for each \<open>j\<close> from 0 to
  \<open>n - i - 2\<close>, on the adjacent positions \<open>j\<close> and \<open>j + 1\<close>. Each step reads the current
  values at its two positions and swaps them exactly when the left one is strictly
  greater than the right one; equal elements are never swapped; and the returned list is
  the input after these swaps and no other change.
\<close>

theorem bubble_sort_classic_loop_structure:
  fixes data :: "'a::linorder list"
  shows "\<exists>arr log. bubble_sort_traced data = Inr (arr, log) \<and> bubble_sort data = Inr arr \<and>
           map outline log = schedule (length data) \<and>
           [i. Pass i \<leftarrow> log] = [0..<length data] \<and>
           replay log data = Some arr \<and>
           (\<forall>j k x y swapped. Step j k x y swapped \<in> set log \<longrightarrow>
              k = j + 1 \<and> swapped = (y < x) \<and> (x = y \<longrightarrow> \<not> swapped))"
proof -
  from bubble_sort_traced_spec [of data] obtain arr log where r:
    "bubble_sort_traced data = Inr (arr, log)" "bubble_sort data = Inr arr"
    "map outline log = schedule (length data)" "replay log data = Some arr"
    by blast
  from r(3) have p: "[i. Pass i \<leftarrow> log] = [0..<length data]"
    unfolding schedule_def by (rule passes_of_outline)
  have s: "\<forall>j k x y swapped. Step j k x y swapped \<in> set log \<longrightarrow>
              k = j + 1 \<and> swapped = (y < x) \<and> (x = y \<longrightarrow> \<not> swapped)"
    using replay_steps [OF r(4)] by blast
  from r p s show ?thesis by blast
qed

text \<open>
  The theorem at \<^verbatim>\<open>["b", "a", "a", "c"]\<close>: the first step of pass 0 swaps
  \<^verbatim>\<open>"b"\<close> and \<^verbatim>\<open>"a"\<close>, the first step of pass 1 finds two equal elements and does not
  swap them.
\<close>

theorem bubble_sort_classic_loop_structure_witness:
  "\<exists>arr log. bubble_sort_traced [''b'', ''a'', ''a'', ''c''] = Inr (arr, log) \<and>
     bubble_sort [''b'', ''a'', ''a'', ''c''] = Inr arr \<and>
     map outline log = schedule 4 \<and>
     Step 0 1 ''b'' ''a'' True \<in> set log \<and> (1::nat) = 0 + 1 \<and> True = (''a'' < ''b'') \<and>
     Step 0 1 ''a'' ''a'' False \<in> set log \<and> ''a'' = ''a'' \<and> \<not> False"
proof -
  define L :: "string list" where "L = [''b'', ''a'', ''a'', ''c'']"
  define LOG :: "string event list" where "LOG =
    [Pass 0, Step 0 1 ''b'' ''a'' True, Step 1 2 ''b'' ''a'' True, Step 2 3 ''b'' ''c'' False,
     Pass 1, Step 0 1 ''a'' ''a'' False, Step 1 2 ''a'' ''b'' False,
     Pass 2, Step 0 1 ''a'' ''a'' False, Pass 3]"
  have run: "bubble_sort_traced L = Inr ([''a'', ''a'', ''b'', ''c''], LOG)"
    unfolding L_def LOG_def by code_simp
  have len: "length L = 4" by (simp add: L_def)
  from bubble_sort_classic_loop_structure [of L] obtain arr log where r:
    "bubble_sort_traced L = Inr (arr, log)" "bubble_sort L = Inr arr"
    "map outline log = schedule (length L)"
    "\<forall>j k x y swapped. Step j k x y swapped \<in> set log \<longrightarrow>
        k = j + 1 \<and> swapped = (y < x) \<and> (x = y \<longrightarrow> \<not> swapped)"
    by blast
  from r(1) run have log: "log = LOG" by simp
  have m1: "Step 0 1 ''b'' ''a'' True \<in> set log" by (simp add: log LOG_def)
  have m2: "Step 0 1 ''a'' ''a'' False \<in> set log" by (simp add: log LOG_def)
  from r(4) m1 have c1: "(1::nat) = 0 + 1 \<and> True = (''a'' < ''b'')" by blast
  from r(4) m2 have c2: "''a'' = ''a'' \<and> \<not> False" by simp
  from r(1,2,3) len m1 m2 c1 c2 have
    "\<exists>arr log. bubble_sort_traced L = Inr (arr, log) \<and> bubble_sort L = Inr arr \<and>
     map outline log = schedule 4 \<and>
     Step 0 1 ''b'' ''a'' True \<in> set log \<and> (1::nat) = 0 + 1 \<and> True = (''a'' < ''b'') \<and>
     Step 0 1 ''a'' ''a'' False \<in> set log \<and> ''a'' = ''a'' \<and> \<not> False"
    by (intro exI [of _ arr] exI [of _ log]) (simp only: simp_thms)
  then show ?thesis unfolding L_def .
qed

section \<open>The sorts leave their input unchanged\<close>

lemma store_at_simps [simp]:
  "store_at h a (Inl e) = Inl e" "store_at h a (Inr s) = Inr (h[a := s])"
  by (simp_all add: store_at_def)

lemma store_at_update [simp]: "store_at (h[a := s]) a res = store_at h a res"
  by (cases res) simp_all

lemma heap_setitem_sim:
  "heap_setitem h a i v = store_at h a (setitem (h ! a) i v)"
  by (cases "setitem (h ! a) i v") (simp_all add: heap_setitem_def)

lemma heap_swap_items_sim:
  assumes "a < length h"
  shows "heap_swap_items h a i j = store_at h a (swap_items (h ! a) i j)"
proof (cases "getitem (h ! a) j")
  case (Inl e)
  then show ?thesis by (simp add: heap_swap_items_def swap_items_def heap_getitem_def)
next
  case x: (Inr x)
  show ?thesis
  proof (cases "getitem (h ! a) i")
    case (Inl e)
    with x show ?thesis by (simp add: heap_swap_items_def swap_items_def heap_getitem_def)
  next
    case y: (Inr y)
    show ?thesis
    proof (cases "setitem (h ! a) i x")
      case (Inl e)
      with x y show ?thesis
        by (simp add: heap_swap_items_def swap_items_def heap_getitem_def heap_setitem_sim)
    next
      case (Inr s)
      with x y assms show ?thesis
        by (simp add: heap_swap_items_def swap_items_def heap_getitem_def heap_setitem_sim)
    qed
  qed
qed

lemma for_loop_heap_sim:
  assumes sim: "\<And>x H. a < length H \<Longrightarrow>
      bodyH x H = store_at H a (body x (H ! a))"
    and a: "a < length H"
  shows "for_loop xs bodyH H = store_at H a (for_loop xs body (H ! a))"
  using a
proof (induction xs arbitrary: H)
  case Nil
  then show ?case by simp
next
  case (Cons x xs)
  show ?case
  proof (cases "body x (H ! a)")
    case (Inl e)
    with sim [OF Cons.prems, of x] show ?thesis by simp
  next
    case (Inr s)
    with sim [OF Cons.prems, of x] have b: "bodyH x H = Inr (H[a := s])" by simp
    have a': "a < length (H[a := s])" using Cons.prems by simp
    have "for_loop xs bodyH (H[a := s]) =
        store_at (H[a := s]) a (for_loop xs body (H[a := s] ! a))"
      by (rule Cons.IH [OF a'])
    then show ?thesis using Cons.prems by (simp add: b Inr)
  qed
qed

lemma bubble_step_heap_sim:
  assumes "a < length h"
  shows "bubble_step_heap a j h = store_at h a (bubble_step j (h ! a))"
proof (cases "getitem (h ! a) (int j)")
  case (Inl e)
  then show ?thesis by (simp add: bubble_step_heap_def bubble_step_def heap_getitem_def)
next
  case x: (Inr x)
  show ?thesis
  proof (cases "getitem (h ! a) (int j + 1)")
    case (Inl e)
    with x show ?thesis by (simp add: bubble_step_heap_def bubble_step_def heap_getitem_def)
  next
    case (Inr y)
    with x assms show ?thesis
      by (simp add: bubble_step_heap_def bubble_step_def heap_getitem_def heap_swap_items_sim)
  qed
qed

lemma bubble_pass_heap_sim:
  assumes "a < length h"
  shows "bubble_pass_heap a n i h = store_at h a (bubble_pass n i (h ! a))"
  unfolding bubble_pass_heap_def bubble_pass_def
  by (rule for_loop_heap_sim [OF bubble_step_heap_sim assms])

lemma bubble_sort_heap_eq:
  "bubble_sort_heap h data =
     (case bubble_sort (h ! data) of Inl e \<Rightarrow> Inl e | Inr s \<Rightarrow> Inr (length h, h @ [s]))"
proof -
  let ?h1 = "h @ [h ! data]" and ?a = "length h"
  have a: "?a < length ?h1" by simp
  have "for_loop [0..<length (h ! data)] (bubble_pass_heap ?a (length (h ! data))) ?h1 =
      store_at ?h1 ?a (for_loop [0..<length (h ! data)]
        (bubble_pass (length (h ! data))) (?h1 ! ?a))"
    by (rule for_loop_heap_sim [OF bubble_pass_heap_sim a])
  then show ?thesis
    by (cases "for_loop [0..<length (h ! data)] (bubble_pass (length (h ! data))) (h ! data)")
      (simp_all add: bubble_sort_heap_def bubble_sort_def list_copy_def heap_len_def Let_def)
qed

lemma min_step_heap_eq: "min_step_heap h a = min_step (h ! a)"
  by (intro ext) (simp add: min_step_heap_def min_step_def heap_getitem_def)

lemma selection_pass_heap_sim:
  assumes "a < length h"
  shows "selection_pass_heap a n i h = store_at h a (selection_pass n i (h ! a))"
proof (cases "for_loop [i + 1..<n] (min_step (h ! a)) i")
  case (Inl e)
  then show ?thesis
    by (simp add: selection_pass_heap_def selection_pass_def min_step_heap_eq)
next
  case (Inr m)
  with assms show ?thesis
    by (simp add: selection_pass_heap_def selection_pass_def min_step_heap_eq
        heap_swap_items_sim)
qed

lemma selection_sort_heap_eq:
  "selection_sort_heap h data =
     (case selection_sort (h ! data) of Inl e \<Rightarrow> Inl e | Inr s \<Rightarrow> Inr (length h, h @ [s]))"
proof -
  let ?h1 = "h @ [h ! data]" and ?a = "length h"
  have a: "?a < length ?h1" by simp
  have "for_loop [0..<length (h ! data)] (selection_pass_heap ?a (length (h ! data))) ?h1 =
      store_at ?h1 ?a (for_loop [0..<length (h ! data)]
        (selection_pass (length (h ! data))) (?h1 ! ?a))"
    by (rule for_loop_heap_sim [OF selection_pass_heap_sim a])
  then show ?thesis
    by (cases "for_loop [0..<length (h ! data)] (selection_pass (length (h ! data))) (h ! data)")
      (simp_all add: selection_sort_heap_def selection_sort_def list_copy_def heap_len_def Let_def)
qed

lemma shift_loop_heap_sim:
  "a < length h \<Longrightarrow>
   shift_loop_heap a key j h =
     (case shift_loop (\<lambda>x. x) key j (h ! a) of
        Inl e \<Rightarrow> Inl e | Inr (j', s) \<Rightarrow> Inr (j', h[a := s]))"
proof (induction a key j h rule: shift_loop_heap.induct)
  case (1 a key j h)
  show ?case
  proof (cases "j \<ge> 0")
    case False
    then show ?thesis
      by (subst shift_loop_heap.simps, subst shift_loop.simps) simp
  next
    case j: True
    show ?thesis
    proof (cases "getitem (h ! a) j")
      case (Inl e)
      with j show ?thesis
        by (subst shift_loop_heap.simps, subst shift_loop.simps) (simp add: heap_getitem_def)
    next
      case x: (Inr x)
      show ?thesis
      proof (cases "x > key")
        case False
        with j x show ?thesis
          by (subst shift_loop_heap.simps, subst shift_loop.simps) (simp add: heap_getitem_def)
      next
        case gt: True
        show ?thesis
        proof (cases "setitem (h ! a) (j + 1) x")
          case (Inl e)
          with j x gt show ?thesis
            by (subst shift_loop_heap.simps, subst shift_loop.simps)
              (simp add: heap_getitem_def heap_setitem_sim)
        next
          case s: (Inr s)
          have hx: "heap_getitem h a j = Inr x" using x by (simp add: heap_getitem_def)
          have hs: "ebind (heap_getitem h a j) (heap_setitem h a (j + 1)) = Inr (h[a := s])"
            using x s by (simp add: heap_getitem_def heap_setitem_sim)
          have hs': "heap_setitem h a (j + 1) x = Inr (h[a := s])"
            using s by (simp add: heap_setitem_sim)
          have a': "a < length (h[a := s])" using "1.prems" by simp
          have IH: "shift_loop_heap a key (j - 1) (h[a := s]) =
              (case shift_loop (\<lambda>x. x) key (j - 1) (h[a := s] ! a) of
                 Inl e \<Rightarrow> Inl e | Inr (j', s') \<Rightarrow> Inr (j', h[a := s, a := s']))"
            by (rule "1.IH" [OF j hx gt hs a'])
          have L: "shift_loop_heap a key j h = shift_loop_heap a key (j - 1) (h[a := s])"
            by (subst shift_loop_heap.simps) (simp add: j hx gt hs')
          have R: "shift_loop (\<lambda>x. x) key j (h ! a) = shift_loop (\<lambda>x. x) key (j - 1) s"
            by (subst shift_loop.simps) (simp add: j x gt s)
          show ?thesis unfolding L R IH using "1.prems"
            by (cases "shift_loop (\<lambda>x. x) key (j - 1) s") (auto split: prod.splits)
        qed
      qed
    qed
  qed
qed

lemma insertion_pass_heap_sim:
  assumes "a < length h"
  shows "insertion_pass_heap a i h = store_at h a (insertion_pass (\<lambda>x. x) i (h ! a))"
proof (cases "getitem (h ! a) (int i)")
  case (Inl e)
  then show ?thesis by (simp add: insertion_pass_heap_def insertion_pass_def heap_getitem_def)
next
  case key: (Inr key)
  show ?thesis
  proof (cases "shift_loop (\<lambda>x. x) key (int i - 1) (h ! a)")
    case (Inl e)
    with key assms show ?thesis
      by (simp add: insertion_pass_heap_def insertion_pass_def heap_getitem_def
          shift_loop_heap_sim)
  next
    case (Inr js)
    obtain j s where js: "js = (j, s)" by (cases js)
    from Inr js key assms show ?thesis
      by (simp add: insertion_pass_heap_def insertion_pass_def heap_getitem_def
          shift_loop_heap_sim heap_setitem_sim)
  qed
qed

lemma insertion_sort_heap_eq:
  "insertion_sort_heap h data =
     (case insertion_sort (h ! data) of Inl e \<Rightarrow> Inl e | Inr s \<Rightarrow> Inr (length h, h @ [s]))"
proof -
  let ?h1 = "h @ [h ! data]" and ?a = "length h"
  have a: "?a < length ?h1" by simp
  have "for_loop [1..<length (h ! data)] (insertion_pass_heap ?a) ?h1 =
      store_at ?h1 ?a (for_loop [1..<length (h ! data)] (insertion_pass (\<lambda>x. x)) (?h1 ! ?a))"
    by (rule for_loop_heap_sim [OF insertion_pass_heap_sim a])
  then show ?thesis
    by (cases "for_loop [1..<length (h ! data)] (insertion_pass (\<lambda>x. x)) (h ! data)")
      (simp_all add: insertion_sort_heap_def insertion_sort_def insertion_sort_key_def
        list_copy_def heap_len_def Let_def)
qed

text \<open>
  Claim C8. No sorting algorithm mutates its input. Called with a reference \<open>data\<close> to a
  list of the heap, each of the three sorts returns normally, with a reference other than
  \<open>data\<close>; in the final heap the list at \<open>data\<close>, and every list that existed before the
  call, is unchanged, and the returned reference holds the sorted result: each algorithm
  works on a copy of its own.
\<close>

theorem sorts_do_not_mutate_input:
  fixes h :: "'a::linorder heap"
  assumes "data < length h"
  shows "(\<exists>arr h'. bubble_sort_heap h data = Inr (arr, h') \<and> h' ! data = h ! data \<and>
            (\<forall>r < length h. h' ! r = h ! r) \<and> arr \<noteq> data \<and>
            bubble_sort (h ! data) = Inr (h' ! arr)) \<and>
         (\<exists>arr h'. selection_sort_heap h data = Inr (arr, h') \<and> h' ! data = h ! data \<and>
            (\<forall>r < length h. h' ! r = h ! r) \<and> arr \<noteq> data \<and>
            selection_sort (h ! data) = Inr (h' ! arr)) \<and>
         (\<exists>arr h'. insertion_sort_heap h data = Inr (arr, h') \<and> h' ! data = h ! data \<and>
            (\<forall>r < length h. h' ! r = h ! r) \<and> arr \<noteq> data \<and>
            insertion_sort (h ! data) = Inr (h' ! arr))"
proof -
  let ?s = "sort (h ! data)"
  let ?h' = "h @ [?s]"
  have frame: "?h' ! data = h ! data" "\<forall>r < length h. ?h' ! r = h ! r" "length h \<noteq> data"
    "?h' ! length h = ?s"
    using assms by (simp_all add: nth_append)
  have b: "bubble_sort_heap h data = Inr (length h, ?h')"
    by (simp add: bubble_sort_heap_eq bubble_sort_eq)
  have s: "selection_sort_heap h data = Inr (length h, ?h')"
    by (simp add: selection_sort_heap_eq selection_sort_eq)
  have i: "insertion_sort_heap h data = Inr (length h, ?h')"
    by (simp add: insertion_sort_heap_eq insertion_sort_eq)
  show ?thesis
  proof (intro conjI)
    show "\<exists>arr h'. bubble_sort_heap h data = Inr (arr, h') \<and> h' ! data = h ! data \<and>
            (\<forall>r < length h. h' ! r = h ! r) \<and> arr \<noteq> data \<and>
            bubble_sort (h ! data) = Inr (h' ! arr)"
      using b frame by (intro exI [of _ "length h"] exI [of _ ?h']) (simp add: bubble_sort_eq)
    show "\<exists>arr h'. selection_sort_heap h data = Inr (arr, h') \<and> h' ! data = h ! data \<and>
            (\<forall>r < length h. h' ! r = h ! r) \<and> arr \<noteq> data \<and>
            selection_sort (h ! data) = Inr (h' ! arr)"
      using s frame by (intro exI [of _ "length h"] exI [of _ ?h']) (simp add: selection_sort_eq)
    show "\<exists>arr h'. insertion_sort_heap h data = Inr (arr, h') \<and> h' ! data = h ! data \<and>
            (\<forall>r < length h. h' ! r = h ! r) \<and> arr \<noteq> data \<and>
            insertion_sort (h ! data) = Inr (h' ! arr)"
      using i frame by (intro exI [of _ "length h"] exI [of _ ?h']) (simp add: insertion_sort_eq)
  qed
qed

text \<open>
  The stores of the model are real: the passes of bubble sort, run on a reference, change
  the object it refers to (and no other).
\<close>

lemma in_place_passes_change_the_object:
  "for_loop [0..<2] (bubble_pass_heap 0 2) [[2, 1 :: nat], [5]] = Inr [[1, 2], [5]]"
  by code_simp

text \<open>The theorem at a heap whose only object is \<^verbatim>\<open>["b", "a", "a", "c"]\<close>.\<close>

theorem sorts_do_not_mutate_input_witness:
  "(0::nat) < length [[''b'', ''a'', ''a'', ''c'']] \<and>
   (\<exists>arr h'. bubble_sort_heap [[''b'', ''a'', ''a'', ''c'']] 0 = Inr (arr, h') \<and>
      h' ! 0 = [''b'', ''a'', ''a'', ''c''] \<and> h' ! arr = [''a'', ''a'', ''b'', ''c'']) \<and>
   (\<exists>arr h'. selection_sort_heap [[''b'', ''a'', ''a'', ''c'']] 0 = Inr (arr, h') \<and>
      h' ! 0 = [''b'', ''a'', ''a'', ''c''] \<and> h' ! arr = [''a'', ''a'', ''b'', ''c'']) \<and>
   (\<exists>arr h'. insertion_sort_heap [[''b'', ''a'', ''a'', ''c'']] 0 = Inr (arr, h') \<and>
      h' ! 0 = [''b'', ''a'', ''a'', ''c''] \<and> h' ! arr = [''a'', ''a'', ''b'', ''c''])"
proof -
  define L :: "string list" where "L = [''b'', ''a'', ''a'', ''c'']"
  define S :: "string list" where "S = [''a'', ''a'', ''b'', ''c'']"
  define H :: "string heap" where "H = [L]"
  have v: "(0::nat) < length H" and H0: "H ! 0 = L" by (simp_all add: H_def)
  have sb: "bubble_sort L = Inr S" unfolding L_def S_def by code_simp
  have ss: "selection_sort L = Inr S" unfolding L_def S_def by code_simp
  have si: "insertion_sort L = Inr S" unfolding L_def S_def by code_simp
  note T = sorts_do_not_mutate_input [OF v]
  from T obtain a1 h1 where 1: "bubble_sort_heap H 0 = Inr (a1, h1)" "h1 ! 0 = H ! 0"
    "bubble_sort (H ! 0) = Inr (h1 ! a1)" by blast
  from T obtain a2 h2 where 2: "selection_sort_heap H 0 = Inr (a2, h2)" "h2 ! 0 = H ! 0"
    "selection_sort (H ! 0) = Inr (h2 ! a2)" by blast
  from T obtain a3 h3 where 3: "insertion_sort_heap H 0 = Inr (a3, h3)" "h3 ! 0 = H ! 0"
    "insertion_sort (H ! 0) = Inr (h3 ! a3)" by blast
  have "\<exists>arr h'. bubble_sort_heap H 0 = Inr (arr, h') \<and> h' ! 0 = L \<and> h' ! arr = S"
    using 1 sb by (intro exI [of _ a1] exI [of _ h1]) (simp add: H0)
  moreover
  have "\<exists>arr h'. selection_sort_heap H 0 = Inr (arr, h') \<and> h' ! 0 = L \<and> h' ! arr = S"
    using 2 ss by (intro exI [of _ a2] exI [of _ h2]) (simp add: H0)
  moreover
  have "\<exists>arr h'. insertion_sort_heap H 0 = Inr (arr, h') \<and> h' ! 0 = L \<and> h' ! arr = S"
    using 3 si by (intro exI [of _ a3] exI [of _ h3]) (simp add: H0)
  ultimately show ?thesis using v unfolding H_def L_def S_def by (intro conjI)
qed

end
